theory Spec2Isabelle
  imports Main "HOL-Library.Word"
begin

unbundle bit_operations_syntax

section \<open>Seek table (seektable.go)\<close>

text \<open>
  Go's \<open>byte\<close>, \<open>uint32\<close> and \<open>uint64\<close> are words of that width, so \<open>+\<close> and \<open>-\<close>
  wrap as in Go. Go's \<open>int\<close> is 64 bits wide here (the package only compiles where
  \<open>1 << 32\<close> fits an \<open>int\<close>); lengths of slices and positions inside them are far
  below \<open>2 ^ 63\<close> and are natural numbers.
\<close>

type_synonym byte = "8 word"
type_synonym u32 = "32 word"
type_synonym u64 = "64 word"

definition SKIPPABLE_MAGIC_NUMBER :: u32 where
  "SKIPPABLE_MAGIC_NUMBER = 0x184D2A5F"

definition SEEKABLE_MAGIC_NUMBER :: u32 where
  "SEEKABLE_MAGIC_NUMBER = 0x8F92EAB1"

definition SKIPPABLE_HEADER_SIZE :: nat where
  "SKIPPABLE_HEADER_SIZE = 8"

definition SEEK_TABLE_FOOTER_SIZE :: nat where
  "SEEK_TABLE_FOOTER_SIZE = 9"

definition SIZE_PER_FRAME :: nat where
  "SIZE_PER_FRAME = 17"

definition SEEKABLE_MAX_FRAMES :: u32 where
  "SEEKABLE_MAX_FRAMES = 0x8000000"

text \<open>
  The errors of the package are \<open>errors.New\<close> values told apart by their message; the
  model has one constructor for each, and one for each error of \<open>io\<close> that the package
  looks at. \<open>Panic\<close> stands for a run-time panic of Go (a slice bound out of range).
\<close>

datatype error =
    ErrFrameIndexTooLarge
  | ErrCorrupted
  | ErrInvalidMagic
  | ErrInvalidIntegritySize
  | ErrNoSeekTable
  | ErrInvalidWhence
  | ErrNegativePosition
  | EOF
  | ErrUnexpectedEOF
  | ErrWriter
  | ErrCodec
  | Panic

datatype Format = FormatHead | FormatFoot

record Entry =
  CompressedOffset :: u64
  DecompressedOffset :: u64

record Frame =
  CompressedSize :: u32
  DecompressedSize :: u32

record SeekTable =
  entries :: "Entry list"

definition NewSeekTable :: SeekTable where
  "NewSeekTable = \<lparr>entries = [\<lparr>CompressedOffset = 0, DecompressedOffset = 0\<rparr>]\<rparr>"

text \<open>\<open>uint32(len(st.entries) - 1)\<close>: the subtraction is on \<open>int\<close>, the conversion wraps.\<close>

definition NumFrames :: "SeekTable \<Rightarrow> u32" where
  "NumFrames st = word_of_int (int (length (entries st)) - 1)"

definition LogFrame :: "SeekTable \<Rightarrow> u32 \<Rightarrow> u32 \<Rightarrow> error + SeekTable" where
  "LogFrame st compressedSize decompressedSize =
     (if NumFrames st \<ge> SEEKABLE_MAX_FRAMES then Inl ErrFrameIndexTooLarge
      else
        let lst = last (entries st) in
        Inr (st\<lparr>entries := entries st @
          [\<lparr>CompressedOffset = CompressedOffset lst + ucast compressedSize,
            DecompressedOffset = DecompressedOffset lst + ucast decompressedSize\<rparr>]\<rparr>))"

definition FrameStartComp :: "SeekTable \<Rightarrow> u32 \<Rightarrow> error + u64" where
  "FrameStartComp st index =
     (if index \<ge> NumFrames st then Inl ErrFrameIndexTooLarge
      else Inr (CompressedOffset (entries st ! unat index)))"

definition FrameStartDecomp :: "SeekTable \<Rightarrow> u32 \<Rightarrow> error + u64" where
  "FrameStartDecomp st index =
     (if index \<ge> NumFrames st then Inl ErrFrameIndexTooLarge
      else Inr (DecompressedOffset (entries st ! unat index)))"

definition FrameEndComp :: "SeekTable \<Rightarrow> u32 \<Rightarrow> error + u64" where
  "FrameEndComp st index =
     (if index \<ge> NumFrames st then Inl ErrFrameIndexTooLarge
      else Inr (CompressedOffset (entries st ! (unat index + 1))))"

definition FrameEndDecomp :: "SeekTable \<Rightarrow> u32 \<Rightarrow> error + u64" where
  "FrameEndDecomp st index =
     (if index \<ge> NumFrames st then Inl ErrFrameIndexTooLarge
      else Inr (DecompressedOffset (entries st ! (unat index + 1))))"

definition FrameSizeComp :: "SeekTable \<Rightarrow> u32 \<Rightarrow> error + u64" where
  "FrameSizeComp st index =
     (if index \<ge> NumFrames st then Inl ErrFrameIndexTooLarge
      else Inr (CompressedOffset (entries st ! (unat index + 1))
                - CompressedOffset (entries st ! unat index)))"

definition FrameSizeDecomp :: "SeekTable \<Rightarrow> u32 \<Rightarrow> error + u64" where
  "FrameSizeDecomp st index =
     (if index \<ge> NumFrames st then Inl ErrFrameIndexTooLarge
      else Inr (DecompressedOffset (entries st ! (unat index + 1))
                - DecompressedOffset (entries st ! unat index)))"

text \<open>
  The tables the package works with come from \<open>NewSeekTable\<close> and successful calls of
  \<open>LogFrame\<close> (the field \<open>entries\<close> is not exported): \<open>built st sizes\<close> says that
  \<open>st\<close> is the table after logging the frames \<open>sizes\<close> in order.
\<close>

inductive built :: "SeekTable \<Rightarrow> (u32 \<times> u32) list \<Rightarrow> bool" where
  built_new: "built NewSeekTable []"
| built_log: "built st fs \<Longrightarrow> LogFrame st c d = Inr st' \<Longrightarrow> built st' (fs @ [(c, d)])"

subsection \<open>Little-endian fields and slices\<close>

text \<open>\<open>binary.LittleEndian.PutUint32\<close> and \<open>binary.LittleEndian.Uint32\<close>.\<close>

definition PutUint32 :: "u32 \<Rightarrow> byte list" where
  "PutUint32 v = [ucast v, ucast (drop_bit 8 v), ucast (drop_bit 16 v), ucast (drop_bit 24 v)]"

definition Uint32 :: "byte list \<Rightarrow> u32" where
  "Uint32 b = ucast (b ! 0) OR push_bit 8 (ucast (b ! 1)) OR push_bit 16 (ucast (b ! 2))
              OR push_bit 24 (ucast (b ! 3))"

text \<open>\<open>xs[lo:hi]\<close> for \<open>lo \<le> hi \<le> len(xs)\<close>, and \<open>copy(dst[pos:], src)\<close>.\<close>

definition slice :: "'a list \<Rightarrow> nat \<Rightarrow> nat \<Rightarrow> 'a list" where
  "slice xs lo hi = take (hi - lo) (drop lo xs)"

definition copy_at :: "'a list \<Rightarrow> nat \<Rightarrow> 'a list \<Rightarrow> 'a list" where
  "copy_at dst pos src =
     (let n = min (length dst - pos) (length src)
      in take pos dst @ take n src @ drop (pos + n) dst)"

subsection \<open>Serializer\<close>

text \<open>
  \<open>writePos\<close> and \<open>frameIndex\<close> are Go \<open>int\<close>s that start at 0 and are only ever
  increased by \<open>WriteTo\<close>, so they are natural numbers. \<open>WriteTo\<close> returns the
  serializer, the buffer and the count; \<open>None\<close> is a run-time panic.
\<close>

record Serializer =
  frames :: "Frame list"
  frameIndex :: nat
  writePos :: nat
  format :: Format

fun entry_frames :: "Entry list \<Rightarrow> Frame list" where
  "entry_frames (a # b # es) =
     \<lparr>CompressedSize = ucast (CompressedOffset b - CompressedOffset a),
      DecompressedSize = ucast (DecompressedOffset b - DecompressedOffset a)\<rparr>
     # entry_frames (b # es)"
| "entry_frames es = []"

definition NewSerializer :: "SeekTable \<Rightarrow> Format \<Rightarrow> Serializer" where
  "NewSerializer st fmt =
     \<lparr>frames = entry_frames (entries st), frameIndex = 0, writePos = 0, format = fmt\<rparr>"

definition EncodedLen :: "Serializer \<Rightarrow> nat" where
  "EncodedLen s = SKIPPABLE_HEADER_SIZE + SEEK_TABLE_FOOTER_SIZE + length (frames s) * SIZE_PER_FRAME"

definition frameSize :: "Serializer \<Rightarrow> nat" where
  "frameSize s = SEEK_TABLE_FOOTER_SIZE + length (frames s) * SIZE_PER_FRAME"

definition makeIntegrity :: "Serializer \<Rightarrow> byte list" where
  "makeIntegrity s = PutUint32 (word_of_nat (length (frames s))) @ [0] @ PutUint32 SEEKABLE_MAGIC_NUMBER"

definition makeHeader :: "Serializer \<Rightarrow> byte list" where
  "makeHeader s = PutUint32 SKIPPABLE_MAGIC_NUMBER @ PutUint32 (word_of_nat (frameSize s))"

definition frameData :: "Frame \<Rightarrow> byte list" where
  "frameData frame = PutUint32 (CompressedSize frame) @ PutUint32 (DecompressedSize frame) @ replicate 9 0"

text \<open>
  The frames loop of \<open>WriteTo\<close>, on the serializer, the buffer, \<open>bufPos\<close> and
  \<open>remaining\<close>. A negative \<open>frameOffset\<close> makes Go index out of range.
\<close>

function WriteTo_frames ::
  "nat \<Rightarrow> Serializer \<Rightarrow> byte list \<Rightarrow> nat \<Rightarrow> nat \<Rightarrow> (Serializer \<times> byte list \<times> nat \<times> nat) option" where
  "WriteTo_frames startPos s buf bufPos remaining =
     (if frameIndex s < length (frames s) \<and> remaining > 0 then
        if writePos s < startPos then None
        else
          let frameOffset = writePos s - startPos;
              framePos = frameOffset mod SIZE_PER_FRAME;
              frameIdx = frameOffset div SIZE_PER_FRAME
          in
            if frameIdx \<ge> length (frames s) then Some (s, buf, bufPos, remaining)
            else
              let needed = min (SIZE_PER_FRAME - framePos) remaining;
                  buf' = copy_at buf bufPos (slice (frameData (frames s ! frameIdx)) framePos (framePos + needed));
                  s' = s\<lparr>writePos := writePos s + needed,
                         frameIndex := (if framePos + needed = SIZE_PER_FRAME then frameIndex s + 1 else frameIndex s)\<rparr>
              in WriteTo_frames startPos s' buf' (bufPos + needed) (remaining - needed)
      else Some (s, buf, bufPos, remaining))"
  by pat_completeness auto
termination
proof (relation "measure (\<lambda>(startPos, s, buf, bufPos, remaining). remaining)")
  show "wf (measure (\<lambda>(startPos, s, buf, bufPos, remaining). remaining))" by simp
next
  fix startPos :: nat and s :: Serializer and buf :: "byte list" and bufPos remaining x xa xb xc xd xe
  assume "frameIndex s < length (frames s) \<and> 0 < remaining"
    and "xa = x mod SIZE_PER_FRAME"
    and "xc = min (SIZE_PER_FRAME - xa) remaining"
  then have "0 < xc" by (simp add: SIZE_PER_FRAME_def)
  then show "((startPos, xe, xd, bufPos + xc, remaining - xc), (startPos, s, buf, bufPos, remaining))
      \<in> measure (\<lambda>(startPos, s, buf, bufPos, remaining). remaining)"
    using \<open>frameIndex s < length (frames s) \<and> 0 < remaining\<close> by simp
qed

declare WriteTo_frames.simps [simp del]

text \<open>
  \<open>WriteTo\<close> is four blocks in a row, each working on the serializer, the buffer,
  \<open>bufPos\<close> and \<open>remaining\<close>: the skippable header, the integrity field of the Head
  format, the frames, and the integrity field of the Foot format. In the last block a
  \<open>writePos\<close> more than 9 bytes past \<open>integrityStart\<close> makes \<open>needed\<close> negative and
  the slice of \<open>integrity\<close> panic.
\<close>

definition WriteTo_header ::
  "Serializer \<Rightarrow> byte list \<Rightarrow> nat \<Rightarrow> nat \<Rightarrow> Serializer \<times> byte list \<times> nat \<times> nat" where
  "WriteTo_header s buf bufPos remaining =
     (if writePos s < SKIPPABLE_HEADER_SIZE then
        let needed = min (SKIPPABLE_HEADER_SIZE - writePos s) remaining
        in (s\<lparr>writePos := writePos s + needed\<rparr>,
            copy_at buf bufPos (slice (makeHeader s) (writePos s) (writePos s + needed)),
            bufPos + needed, remaining - needed)
      else (s, buf, bufPos, remaining))"

definition WriteTo_head_integrity ::
  "Serializer \<Rightarrow> byte list \<Rightarrow> nat \<Rightarrow> nat \<Rightarrow> Serializer \<times> byte list \<times> nat \<times> nat" where
  "WriteTo_head_integrity s buf bufPos remaining =
     (if format s = FormatHead \<and> writePos s \<ge> SKIPPABLE_HEADER_SIZE
         \<and> writePos s < SKIPPABLE_HEADER_SIZE + SEEK_TABLE_FOOTER_SIZE then
        let integrityPos = writePos s - SKIPPABLE_HEADER_SIZE;
            needed = min (SEEK_TABLE_FOOTER_SIZE - integrityPos) remaining
        in (s\<lparr>writePos := writePos s + needed\<rparr>,
            copy_at buf bufPos (slice (makeIntegrity s) integrityPos (integrityPos + needed)),
            bufPos + needed, remaining - needed)
      else (s, buf, bufPos, remaining))"

definition WriteTo_foot_integrity ::
  "nat \<Rightarrow> Serializer \<Rightarrow> byte list \<Rightarrow> nat \<Rightarrow> nat \<Rightarrow> (Serializer \<times> byte list \<times> nat) option" where
  "WriteTo_foot_integrity startPos s buf bufPos remaining =
     (if format s = FormatFoot then
        let integrityStart = startPos + length (frames s) * SIZE_PER_FRAME in
        if writePos s \<ge> integrityStart \<and> remaining > 0 then
          let integrityPos = writePos s - integrityStart in
          if integrityPos > SEEK_TABLE_FOOTER_SIZE then None
          else
            let needed = min (SEEK_TABLE_FOOTER_SIZE - integrityPos) remaining
            in Some (s\<lparr>writePos := writePos s + needed\<rparr>,
                     copy_at buf bufPos (slice (makeIntegrity s) integrityPos (integrityPos + needed)),
                     bufPos + needed)
        else Some (s, buf, bufPos)
      else Some (s, buf, bufPos))"

definition WriteTo :: "Serializer \<Rightarrow> byte list \<Rightarrow> (Serializer \<times> byte list \<times> nat) option" where
  "WriteTo s buf =
     (case WriteTo_header s buf 0 (length buf) of
        (s1, buf1, bufPos1, remaining1) \<Rightarrow>
          case WriteTo_head_integrity s1 buf1 bufPos1 remaining1 of
            (s2, buf2, bufPos2, remaining2) \<Rightarrow>
              let startPos = (if format s2 = FormatHead
                              then SKIPPABLE_HEADER_SIZE + SEEK_TABLE_FOOTER_SIZE
                              else SKIPPABLE_HEADER_SIZE)
              in case WriteTo_frames startPos s2 buf2 bufPos2 remaining2 of
                   None \<Rightarrow> None
                 | Some (s3, buf3, bufPos3, remaining3) \<Rightarrow>
                     WriteTo_foot_integrity startPos s3 buf3 bufPos3 remaining3)"

text \<open>
  The layout of the table as the specification gives it: the skippable envelope, then
  the frame slots followed by the integrity footer (Foot), or the integrity footer
  followed by the frame slots (Head).
\<close>

definition table_image :: "Serializer \<Rightarrow> byte list" where
  "table_image s =
     (case format s of
        FormatFoot \<Rightarrow> makeHeader s @ concat (map frameData (frames s)) @ makeIntegrity s
      | FormatHead \<Rightarrow> makeHeader s @ makeIntegrity s @ concat (map frameData (frames s)))"

subsection \<open>Parsing\<close>

text \<open>The loop of \<open>ParseSeekTable\<close> over the frame slots, \<open>i\<close> running up to \<open>numFrames\<close>.\<close>

function parse_frames :: "byte list \<Rightarrow> nat \<Rightarrow> nat \<Rightarrow> nat \<Rightarrow> SeekTable \<Rightarrow> error + SeekTable" where
  "parse_frames data dataStart numFrames i st =
     (if i < numFrames then
        let offset = dataStart + i * SIZE_PER_FRAME;
            compSize = Uint32 (slice data offset (offset + 4));
            decompSize = Uint32 (slice data (offset + 4) (offset + 8))
        in case LogFrame st compSize decompSize of
             Inl err \<Rightarrow> Inl err
           | Inr st' \<Rightarrow> parse_frames data dataStart numFrames (i + 1) st'
      else Inr st)"
  by pat_completeness auto
termination
  by (relation "measure (\<lambda>(data, dataStart, numFrames, i, st). numFrames - i)") auto

declare parse_frames.simps [simp del]

definition ParseSeekTable :: "byte list \<Rightarrow> error + SeekTable" where
  "ParseSeekTable data =
     (if length data < SEEK_TABLE_FOOTER_SIZE then Inl ErrCorrupted
      else
        let footerStart = length data - SEEK_TABLE_FOOTER_SIZE;
            footer = drop footerStart data
        in
          if Uint32 (slice footer 5 9) \<noteq> SEEKABLE_MAGIC_NUMBER then Inl ErrInvalidMagic
          else
            let numFrames = Uint32 (slice footer 0 4) in
            if numFrames > SEEKABLE_MAX_FRAMES then Inl ErrFrameIndexTooLarge
            else
              let expectedSize = SKIPPABLE_HEADER_SIZE + SEEK_TABLE_FOOTER_SIZE
                                 + unat numFrames * SIZE_PER_FRAME in
              if length data \<noteq> expectedSize then Inl ErrCorrupted
              else if Uint32 (slice data 0 4) \<noteq> SKIPPABLE_MAGIC_NUMBER then Inl ErrInvalidMagic
              else
                let possibleIntegrity =
                      slice data SKIPPABLE_HEADER_SIZE (SKIPPABLE_HEADER_SIZE + SEEK_TABLE_FOOTER_SIZE);
                    dataStart =
                      (if length data > SKIPPABLE_HEADER_SIZE + SEEK_TABLE_FOOTER_SIZE
                          \<and> Uint32 (slice possibleIntegrity 5 9) = SEEKABLE_MAGIC_NUMBER
                       then SKIPPABLE_HEADER_SIZE + SEEK_TABLE_FOOTER_SIZE
                       else SKIPPABLE_HEADER_SIZE)
                in parse_frames data dataStart (unat numFrames) 0 NewSeekTable)"

definition ParseSeekTableSize :: "byte list \<Rightarrow> error + nat" where
  "ParseSeekTableSize integrity =
     (if length integrity \<noteq> SEEK_TABLE_FOOTER_SIZE then Inl ErrInvalidIntegritySize
      else if Uint32 (slice integrity 5 9) \<noteq> SEEKABLE_MAGIC_NUMBER then Inl ErrInvalidMagic
      else
        let numFrames = Uint32 (slice integrity 0 4) in
        if numFrames > SEEKABLE_MAX_FRAMES then Inl ErrFrameIndexTooLarge
        else Inr (SKIPPABLE_HEADER_SIZE + SEEK_TABLE_FOOTER_SIZE + unat numFrames * SIZE_PER_FRAME))"


text \<open>
  The loop that drains a serializer through one reused buffer, as \<open>FinishWithFormat\<close>
  does: call \<open>WriteTo\<close> until it returns 0 and collect \<open>buf[:n]\<close> of each call.
  \<open>None\<close> is a panic or a loop that never ends.
\<close>

partial_function (option) write_chunks :: "Serializer \<Rightarrow> byte list \<Rightarrow> byte list \<Rightarrow> byte list option" where
  "write_chunks s buf out =
     (case WriteTo s buf of
        None \<Rightarrow> None
      | Some (s', buf', n) \<Rightarrow>
          if n = 0 then Some out else write_chunks s' buf' (out @ take n buf'))"

declare write_chunks.simps [code]

section \<open>Encoder (encoder.go)\<close>

definition MAX_FRAME_SIZE :: int where
  "MAX_FRAME_SIZE = 2 ^ 32"

definition DEFAULT_FRAME_SIZE :: u32 where
  "DEFAULT_FRAME_SIZE = 512 * 1024"

datatype FrameSizePolicy = CompressedFrameSize u32 | UncompressedFrameSize u32

text \<open>\<open>FramePolicy\<close> is an interface value: \<open>None\<close> is the nil interface.\<close>

record EncoderOptions =
  Level :: int
  FramePolicy :: "FrameSizePolicy option"
  ChecksumFlag :: bool
  CompressionDict :: "byte list"

definition DefaultEncoderOptions :: EncoderOptions where
  "DefaultEncoderOptions =
     \<lparr>Level = 2, FramePolicy = Some (CompressedFrameSize DEFAULT_FRAME_SIZE),
      ChecksumFlag = True, CompressionDict = []\<rparr>"

text \<open>
  The writer and the zstd encoder are not part of the package. The writer is a state
  \<open>'w\<close> with a function \<open>wr\<close> for \<open>Write\<close>, which returns the new state and
  the error, if any; the zstd encoder is its \<open>EncodeAll\<close>, a function on byte strings.
\<close>

record 'w Encoder =
  writer :: 'w
  encoder :: "byte list \<Rightarrow> byte list"
  options :: EncoderOptions
  seekTable :: SeekTable
  frameBuffer :: "byte list"
  frameCSize :: u64
  frameDSize :: u64
  writtenTotal :: u64
  currentFrameNum :: u32

definition NewEncoder ::
  "(EncoderOptions \<Rightarrow> error + (byte list \<Rightarrow> byte list)) \<Rightarrow> 'w \<Rightarrow> EncoderOptions option
    \<Rightarrow> error + 'w Encoder" where
  "NewEncoder zstd_NewWriter w opts =
     (let opts' = (case opts of None \<Rightarrow> DefaultEncoderOptions | Some v \<Rightarrow> v) in
      case zstd_NewWriter opts' of
        Inl err \<Rightarrow> Inl err
      | Inr enc \<Rightarrow>
          Inr \<lparr>writer = w, encoder = enc, options = opts', seekTable = NewSeekTable,
               frameBuffer = [], frameCSize = 0, frameDSize = 0, writtenTotal = 0,
               currentFrameNum = 0\<rparr>)"

text \<open>
  \<open>int64(x)\<close> of a \<open>uint64\<close> reads the same bits as signed, and \<open>int64\<close> subtraction
  wraps: the difference is \<open>sint\<close> of the difference of the words.
\<close>

definition remainingFrameSize :: "'w Encoder \<Rightarrow> int" where
  "remainingFrameSize e =
     (case FramePolicy (options e) of
        Some (CompressedFrameSize sz) \<Rightarrow>
          let remaining = sint ((ucast sz :: u64) - frameCSize e) in
          if remaining < 0 then 0
          else
            let maxRemaining = sint ((4294967296 :: u64) - frameDSize e) in
            if remaining > maxRemaining then maxRemaining else remaining
      | Some (UncompressedFrameSize sz) \<Rightarrow>
          let remaining = sint ((ucast sz :: u64) - frameDSize e) in
          if remaining < 0 then 0
          else if remaining > MAX_FRAME_SIZE then MAX_FRAME_SIZE
          else remaining
      | None \<Rightarrow> 0)"

definition isFrameComplete :: "'w Encoder \<Rightarrow> bool" where
  "isFrameComplete e =
     (case FramePolicy (options e) of
        Some (CompressedFrameSize sz) \<Rightarrow>
          frameCSize e \<ge> ucast sz \<or> frameDSize e \<ge> 4294967296
      | Some (UncompressedFrameSize sz) \<Rightarrow>
          let maxSize = (ucast sz :: u64);
              maxSize = (if maxSize > 4294967296 then 4294967296 else maxSize)
          in frameDSize e \<ge> maxSize
      | None \<Rightarrow> True)"

definition EndFrame :: "('w \<Rightarrow> byte list \<Rightarrow> 'w \<times> error option) \<Rightarrow> 'w Encoder \<Rightarrow> 'w Encoder \<times> error option" where
  "EndFrame wr e =
     (if frameDSize e = 0 then (e, None)
      else
        case wr (writer e) (frameBuffer e) of
          (w', Some err) \<Rightarrow> (e\<lparr>writer := w'\<rparr>, Some err)
        | (w', None) \<Rightarrow>
            let e1 = e\<lparr>writer := w'\<rparr> in
            case LogFrame (seekTable e1) (ucast (frameCSize e1)) (ucast (frameDSize e1)) of
              Inl err \<Rightarrow> (e1, Some err)
            | Inr st' \<Rightarrow>
                (e1\<lparr>seekTable := st',
                    writtenTotal := writtenTotal e1 + frameCSize e1,
                    currentFrameNum := currentFrameNum e1 + 1,
                    frameBuffer := [],
                    frameCSize := 0,
                    frameDSize := 0\<rparr>, None))"

text \<open>
  The loop of \<open>WriteWithPrefix\<close> on the encoder, the rest of \<open>p\<close> and
  \<open>totalWritten\<close>; \<open>prefix\<close> is \<open>None\<close> for \<open>nil\<close>. It returns the encoder,
  the count and the error. The loop need not end (a policy of size 0 never consumes
  a byte): \<open>None\<close> is a call that does not return. A negative \<open>toWrite\<close> makes
  \<open>p[:toWrite]\<close> panic.
\<close>

partial_function (option) WriteWithPrefix_loop ::
  "('w \<Rightarrow> byte list \<Rightarrow> 'w \<times> error option) \<Rightarrow> 'w Encoder \<Rightarrow> byte list \<Rightarrow> byte list option \<Rightarrow> nat
    \<Rightarrow> ('w Encoder \<times> nat \<times> error option) option" where
  "WriteWithPrefix_loop wr e p prefix totalWritten =
     (if length p > 0 then
        case (if remainingFrameSize e = 0 then EndFrame wr e else (e, None)) of
          (e1, Some err) \<Rightarrow> Some (e1, totalWritten, Some err)
        | (e1, None) \<Rightarrow>
            let remaining = remainingFrameSize e1;
                toWrite = (if int (length p) > remaining then remaining else int (length p))
            in
              if toWrite < 0 then Some (e1, totalWritten, Some Panic)
              else
                let chunk = take (nat toWrite) p;
                    compressed =
                      (if frameDSize e1 = 0 \<and> prefix \<noteq> None then encoder e1 (the prefix @ chunk)
                       else encoder e1 chunk);
                    e2 = e1\<lparr>frameBuffer := frameBuffer e1 @ compressed,
                            frameCSize := frameCSize e1 + word_of_nat (length compressed),
                            frameDSize := frameDSize e1 + word_of_int toWrite\<rparr>;
                    totalWritten' = totalWritten + nat toWrite;
                    p' = drop (nat toWrite) p
                in
                  if isFrameComplete e2 then
                    case EndFrame wr e2 of
                      (e3, Some err) \<Rightarrow> Some (e3, totalWritten', Some err)
                    | (e3, None) \<Rightarrow> WriteWithPrefix_loop wr e3 p' prefix totalWritten'
                  else WriteWithPrefix_loop wr e2 p' prefix totalWritten'
      else Some (e, totalWritten, None))"

declare WriteWithPrefix_loop.simps [code]

definition WriteWithPrefix ::
  "('w \<Rightarrow> byte list \<Rightarrow> 'w \<times> error option) \<Rightarrow> 'w Encoder \<Rightarrow> byte list \<Rightarrow> byte list option
    \<Rightarrow> ('w Encoder \<times> nat \<times> error option) option" where
  "WriteWithPrefix wr e p prefix = WriteWithPrefix_loop wr e p prefix 0"

definition Write ::
  "('w \<Rightarrow> byte list \<Rightarrow> 'w \<times> error option) \<Rightarrow> 'w Encoder \<Rightarrow> byte list
    \<Rightarrow> ('w Encoder \<times> nat \<times> error option) option" where
  "Write wr e p = WriteWithPrefix wr e p None"

text \<open>The loop of \<open>FinishWithFormat\<close> that writes the seek table through a 4096-byte buffer.\<close>

partial_function (option) Finish_loop ::
  "('w \<Rightarrow> byte list \<Rightarrow> 'w \<times> error option) \<Rightarrow> 'w \<Rightarrow> Serializer \<Rightarrow> byte list
    \<Rightarrow> ('w \<times> error option) option" where
  "Finish_loop wr w s buf =
     (case WriteTo s buf of
        None \<Rightarrow> None
      | Some (s', buf', n) \<Rightarrow>
          if n = 0 then Some (w, None)
          else
            case wr w (take n buf') of
              (w', Some err) \<Rightarrow> Some (w', Some err)
            | (w', None) \<Rightarrow> Finish_loop wr w' s' buf')"

declare Finish_loop.simps [code]

definition FinishWithFormat ::
  "('w \<Rightarrow> byte list \<Rightarrow> 'w \<times> error option) \<Rightarrow> 'w Encoder \<Rightarrow> Format
    \<Rightarrow> ('w Encoder \<times> error option) option" where
  "FinishWithFormat wr e fmt =
     (case EndFrame wr e of
        (e1, Some err) \<Rightarrow> Some (e1, Some err)
      | (e1, None) \<Rightarrow>
          case Finish_loop wr (writer e1) (NewSerializer (seekTable e1) fmt) (replicate 4096 0) of
            None \<Rightarrow> None
          | Some (w', err) \<Rightarrow> Some (e1\<lparr>writer := w'\<rparr>, err))"

definition Finish ::
  "('w \<Rightarrow> byte list \<Rightarrow> 'w \<times> error option) \<Rightarrow> 'w Encoder \<Rightarrow> ('w Encoder \<times> error option) option" where
  "Finish wr e = FinishWithFormat wr e FormatFoot"


section \<open>Decoder (decoder.go)\<close>

text \<open>
  The source is a \<open>Seekable\<close>, outside the package. It is modelled on \<open>bytes.Reader\<close>,
  the source the tests of the package read from: the bytes and the read position.
  \<open>src_calls\<close> counts the calls of \<open>Read\<close> and \<open>Seek\<close> made on the source, so that
  a call that is not made can be told from a call that changes nothing. Offsets of type
  \<open>int64\<close> are 64-bit words read with \<open>sint\<close>; \<open>whence\<close> is Go's \<open>int\<close> with
  \<open>io.SeekStart = 0\<close>, \<open>io.SeekCurrent = 1\<close> and \<open>io.SeekEnd = 2\<close>.
\<close>

type_synonym i64 = "64 word"

record Source =
  src_data :: "byte list"
  src_pos :: nat
  src_calls :: nat

definition Source_Seek :: "Source \<Rightarrow> i64 \<Rightarrow> int \<Rightarrow> Source \<times> (error + i64)" where
  "Source_Seek src offset whence =
     (let src' = src\<lparr>src_calls := src_calls src + 1\<rparr> in
      if whence \<noteq> 0 \<and> whence \<noteq> 1 \<and> whence \<noteq> 2 then (src', Inl ErrInvalidWhence)
      else
        let abs = (if whence = 0 then sint offset
                   else if whence = 1 then int (src_pos src) + sint offset
                   else int (length (src_data src)) + sint offset)
        in if abs < 0 then (src', Inl ErrNegativePosition)
           else (src'\<lparr>src_pos := nat abs\<rparr>, Inr (word_of_int abs)))"

text \<open>
  \<open>io.ReadFull(source, buf)\<close> for a buffer of \<open>n\<close> bytes: it returns the source, the
  bytes read and the error. An empty buffer makes no call; at the end of the data the
  first \<open>Read\<close> returns \<open>io.EOF\<close>; a short read is followed by a second \<open>Read\<close>,
  which returns \<open>io.EOF\<close>, turned into \<open>io.ErrUnexpectedEOF\<close>.
\<close>

definition ReadFull :: "Source \<Rightarrow> nat \<Rightarrow> Source \<times> byte list \<times> error option" where
  "ReadFull src n =
     (if n = 0 then (src, [], None)
      else if src_pos src \<ge> length (src_data src) then
        (src\<lparr>src_calls := src_calls src + 1\<rparr>, [], Some EOF)
      else
        let got = take n (drop (src_pos src) (src_data src)) in
        if length got = n then
          (src\<lparr>src_pos := src_pos src + n, src_calls := src_calls src + 1\<rparr>, got, None)
        else
          (src\<lparr>src_pos := length (src_data src), src_calls := src_calls src + 2\<rparr>, got,
           Some ErrUnexpectedEOF))"

record DecoderOptions =
  opt_SeekTable :: "SeekTable option"
  LowerFrame :: u32
  UpperFrame :: u32
  Dict :: "byte list"
  MaxWindowLog :: int

definition DefaultDecoderOptions :: DecoderOptions where
  "DefaultDecoderOptions =
     \<lparr>opt_SeekTable = None, LowerFrame = 0, UpperFrame = 0, Dict = [], MaxWindowLog = 27\<rparr>"

text \<open>
  The zstd decoder is its \<open>DecodeAll\<close>, a function from a frame to its bytes or an
  error. The fields \<open>frameData\<close> and \<open>framePos\<close> of the Go struct are never read or
  written and are left out. \<open>decompressed\<close> is the unread part of the \<open>bytes.Buffer\<close>.
\<close>

record Decoder =
  source :: Source
  decoder :: "byte list \<Rightarrow> error + byte list"
  dec_options :: DecoderOptions
  dec_seekTable :: SeekTable
  currentFrame :: u32
  decompressed :: "byte list"
  lowerFrame :: u32
  upperFrame :: u32
  totalRead :: u64
  eofReached :: bool

definition ReadSeekTableFooter :: "Source \<Rightarrow> Source \<times> (error + byte list)" where
  "ReadSeekTableFooter r =
     (case Source_Seek r (- 9) 2 of
        (r1, Inl err) \<Rightarrow> (r1, Inl err)
      | (r1, Inr _) \<Rightarrow>
          case ReadFull r1 SEEK_TABLE_FOOTER_SIZE of
            (r2, footer, Some err) \<Rightarrow> (r2, Inl err)
          | (r2, footer, None) \<Rightarrow> (r2, Inr footer))"

text \<open>The part of \<open>NewDecoder\<close> that reads the seek table from the end of the source.\<close>

definition load_seek_table :: "Source \<Rightarrow> Source \<times> SeekTable option" where
  "load_seek_table source0 =
     (case ReadSeekTableFooter source0 of
        (s1, Inl err) \<Rightarrow> (s1, None)
      | (s1, Inr footer) \<Rightarrow>
          case ParseSeekTableSize footer of
            Inl err \<Rightarrow> (s1, None)
          | Inr seekTableSize \<Rightarrow>
              let (s2, cur) = Source_Seek s1 0 1;
                  currentPos = (case cur of Inl err \<Rightarrow> 0 | Inr v \<Rightarrow> v);
                  (s3, tbl) =
                    (case Source_Seek s2 (- word_of_nat seekTableSize) 2 of
                       (s3, Inl err) \<Rightarrow> (s3, None)
                     | (s3, Inr _) \<Rightarrow>
                         case ReadFull s3 seekTableSize of
                           (s4, seekTableData, Some err) \<Rightarrow> (s4, None)
                         | (s4, seekTableData, None) \<Rightarrow>
                             (s4, case ParseSeekTable seekTableData of
                                    Inl err \<Rightarrow> None | Inr t \<Rightarrow> Some t));
                  (s5, _) = Source_Seek s3 currentPos 0
              in (s5, tbl))"

definition NewDecoder ::
  "(DecoderOptions \<Rightarrow> error + (byte list \<Rightarrow> error + byte list)) \<Rightarrow> Source \<Rightarrow> DecoderOptions option
    \<Rightarrow> error + Decoder" where
  "NewDecoder zstd_NewReader source0 opts0 =
     (let opts = (case opts0 of None \<Rightarrow> DefaultDecoderOptions | Some v \<Rightarrow> v);
          (source1, tbl) =
            (case opt_SeekTable opts of
               Some t \<Rightarrow> (source0, Some t)
             | None \<Rightarrow> load_seek_table source0)
      in
        case tbl of
          None \<Rightarrow> Inl ErrNoSeekTable
        | Some st \<Rightarrow>
            case zstd_NewReader opts of
              Inl err \<Rightarrow> Inl err
            | Inr dec \<Rightarrow>
                let d = \<lparr>source = source1, decoder = dec, dec_options = opts, dec_seekTable = st,
                         currentFrame = LowerFrame opts, decompressed = [],
                         lowerFrame = LowerFrame opts, upperFrame = UpperFrame opts,
                         totalRead = 0, eofReached = False\<rparr>;
                    d = (if upperFrame d = 0 \<or> upperFrame d \<ge> NumFrames st
                         then d\<lparr>upperFrame := NumFrames st - 1\<rparr> else d)
                in
                  if currentFrame d > 0 then
                    case FrameStartComp st (currentFrame d) of
                      Inl err \<Rightarrow> Inl err
                    | Inr startOffset \<Rightarrow>
                        case Source_Seek (source d) startOffset 0 of
                          (src', Inl err) \<Rightarrow> Inl err
                        | (src', Inr _) \<Rightarrow> Inr (d\<lparr>source := src'\<rparr>)
                  else
                    case Source_Seek (source d) 0 0 of
                      (src', Inl err) \<Rightarrow> Inl err
                    | (src', Inr _) \<Rightarrow> Inr (d\<lparr>source := src'\<rparr>))"

definition decompressNextFrame :: "Decoder \<Rightarrow> byte list option \<Rightarrow> Decoder \<times> error option" where
  "decompressNextFrame d prefix =
     (if currentFrame d > upperFrame d then (d, Some EOF)
      else
        case FrameSizeComp (dec_seekTable d) (currentFrame d) of
          Inl err \<Rightarrow> (d, Some err)
        | Inr fsize \<Rightarrow>
            case ReadFull (source d) (unat fsize) of
              (src', compressedData, Some err) \<Rightarrow> (d\<lparr>source := src'\<rparr>, Some err)
            | (src', compressedData, None) \<Rightarrow>
                let d1 = d\<lparr>source := src'\<rparr>;
                    res =
                      (if prefix \<noteq> None \<and> currentFrame d1 = lowerFrame d1 then
                         case decoder d1 (the prefix @ compressedData) of
                           Inl err \<Rightarrow> decoder d1 compressedData
                         | Inr out \<Rightarrow> Inr out
                       else decoder d1 compressedData)
                in
                  case res of
                    Inl err \<Rightarrow> (d1, Some err)
                  | Inr out \<Rightarrow>
                      (d1\<lparr>decompressed := decompressed d1 @ out,
                          currentFrame := currentFrame d1 + 1\<rparr>, None))"


lemma decompressNextFrame_progress:
  assumes "decompressNextFrame d prefix = (d', None)"
  shows "dec_seekTable d' = dec_seekTable d \<and> currentFrame d < NumFrames (dec_seekTable d)
         \<and> currentFrame d' = currentFrame d + 1"
  using assms
  by (auto simp add: decompressNextFrame_def FrameSizeComp_def Let_def not_le
      split: if_splits sum.splits prod.splits option.splits)

lemma word_less_succ_diff:
  fixes a b :: u32
  assumes "a < b"
  shows "unat b - unat (a + 1) < unat b - unat a"
proof -
  have "unat a < unat b" using assms by (simp add: word_less_nat_alt)
  moreover have "unat b < 2 ^ 32" using unsigned_less [of b] by simp
  moreover have "unat (a + 1) = (unat a + 1) mod 2 ^ 32" by (simp add: unat_word_ariths)
  ultimately show ?thesis by simp
qed

text \<open>
  The loop of \<open>ReadWithPrefix\<close> on the decoder, the buffer \<open>p\<close> and the local
  \<open>totalRead\<close> (here \<open>n_read\<close>); it returns the decoder, the buffer, the count and
  the error. It ends because every round either copies at least one byte or moves to
  the next frame of the table.
\<close>

function ReadWithPrefix_loop ::
  "Decoder \<Rightarrow> byte list \<Rightarrow> byte list option \<Rightarrow> nat \<Rightarrow> Decoder \<times> byte list \<times> nat \<times> error option" where
  "ReadWithPrefix_loop d p prefix n_read =
     (if n_read < length p \<and> \<not> eofReached d then
        if length (decompressed d) > 0 then
          let n = min (length (decompressed d)) (length p - n_read);
              p' = copy_at p n_read (take n (decompressed d));
              d' = d\<lparr>decompressed := drop n (decompressed d), totalRead := totalRead d + word_of_nat n\<rparr>
          in ReadWithPrefix_loop d' p' prefix (n_read + n)
        else
          case decompressNextFrame d prefix of
            (d', Some err) \<Rightarrow>
              if err = EOF then
                if n_read > 0 then (d'\<lparr>eofReached := True\<rparr>, p, n_read, None)
                else (d'\<lparr>eofReached := True\<rparr>, p, n_read, Some err)
              else (d', p, n_read, Some err)
          | (d', None) \<Rightarrow> ReadWithPrefix_loop d' p prefix n_read
      else (d, p, n_read, None))"
  by pat_completeness auto
termination
proof (relation "measures [\<lambda>(d, p, prefix, n_read). unat (NumFrames (dec_seekTable d)) - unat (currentFrame d),
                           \<lambda>(d, p, prefix, n_read). length p - n_read]", goal_cases)
  case 1
  show ?case by simp
next
  case (2 d p prefix n_read x xa xb)
  then have "0 < x" "x \<le> length p - n_read" "n_read < length p" by simp_all
  then have "length (copy_at p n_read (take x (decompressed d))) - (n_read + x) < length p - n_read"
    by (simp add: copy_at_def Let_def)
  then show ?case using 2 by simp
next
  case (3 d p prefix n_read x y)
  then have "decompressNextFrame d prefix = (x, None)" by simp
  from decompressNextFrame_progress [OF this] show ?case
    by (simp add: word_less_succ_diff)
qed

declare ReadWithPrefix_loop.simps [simp del]

definition ReadWithPrefix ::
  "Decoder \<Rightarrow> byte list \<Rightarrow> byte list option \<Rightarrow> Decoder \<times> byte list \<times> nat \<times> error option" where
  "ReadWithPrefix d p prefix =
     (if eofReached d then (d, p, 0, Some EOF)
      else ReadWithPrefix_loop d p prefix 0)"

definition Read :: "Decoder \<Rightarrow> byte list \<Rightarrow> Decoder \<times> byte list \<times> nat \<times> error option" where
  "Read d p = ReadWithPrefix d p None"

definition mustFrameEndDecomp :: "Decoder \<Rightarrow> u32 \<Rightarrow> u64" where
  "mustFrameEndDecomp d frame =
     (case FrameEndDecomp (dec_seekTable d) frame of Inl err \<Rightarrow> 0 | Inr offset \<Rightarrow> offset)"

text \<open>
  The binary search of \<open>findFrameAtOffset\<close>, on \<open>low\<close> and \<open>high\<close>; \<open>None\<close> is
  a search that does not end.
\<close>

partial_function (option) findFrame_loop :: "Decoder \<Rightarrow> u64 \<Rightarrow> u32 \<Rightarrow> u32 \<Rightarrow> (u32 \<times> u32) option" where
  "findFrame_loop d offset low high =
     (if low + 1 < high then
        let mid = (low + high) div 2;
            midOffset = mustFrameEndDecomp d mid
        in if offset < midOffset then findFrame_loop d offset low mid
           else findFrame_loop d offset mid high
      else Some (low, high))"

declare findFrame_loop.simps [code]

definition findFrameAtOffset :: "Decoder \<Rightarrow> u64 \<Rightarrow> u32 option" where
  "findFrameAtOffset d offset =
     (if offset = 0 then Some 0
      else
        let numFrames = NumFrames (dec_seekTable d) in
        if offset \<ge> mustFrameEndDecomp d (numFrames - 1) then Some (numFrames - 1)
        else
          case findFrame_loop d offset 0 numFrames of
            None \<Rightarrow> None
          | Some (low, high) \<Rightarrow>
              if offset < mustFrameEndDecomp d low then Some low else Some high)"

text \<open>
  The loop of \<open>Seek\<close> that reads and throws away \<open>skipBytes\<close> bytes through
  \<open>skipBuf\<close>; it returns the decoder and the error of the failing \<open>Read\<close>.
\<close>

partial_function (option) Seek_skip :: "Decoder \<Rightarrow> u64 \<Rightarrow> byte list \<Rightarrow> (Decoder \<times> error option) option" where
  "Seek_skip d skipBytes skipBuf =
     (if skipBytes > 0 then
        let toSkip = (if skipBytes > word_of_nat (length skipBuf) then word_of_nat (length skipBuf)
                      else skipBytes)
        in case Read d (take (unat toSkip) skipBuf) of
             (d', p', n, Some err) \<Rightarrow> Some (d', Some err)
           | (d', p', n, None) \<Rightarrow>
               Seek_skip d' (skipBytes - word_of_nat n) (p' @ drop (unat toSkip) skipBuf)
      else Some (d, None))"

declare Seek_skip.simps [code]

definition Seek :: "Decoder \<Rightarrow> i64 \<Rightarrow> int \<Rightarrow> (Decoder \<times> (error + i64)) option" where
  "Seek d offset whence =
     (case (if whence = 0 then Inr offset
            else if whence = 1 then Inr (totalRead d + offset)
            else if whence = 2 then
              (case FrameEndDecomp (dec_seekTable d) (NumFrames (dec_seekTable d) - 1) of
                 Inl err \<Rightarrow> Inl err
               | Inr totalSize \<Rightarrow> Inr (totalSize + offset))
            else Inl ErrInvalidWhence) of
        Inl err \<Rightarrow> Some (d, Inl err)
      | Inr targetOffset \<Rightarrow>
          case findFrameAtOffset d targetOffset of
            None \<Rightarrow> None
          | Some found \<Rightarrow>
              let targetFrame = (if found < lowerFrame d then lowerFrame d else found);
                  targetFrame = (if targetFrame > upperFrame d then upperFrame d else targetFrame)
              in
                case FrameStartDecomp (dec_seekTable d) targetFrame of
                  Inl err \<Rightarrow> Some (d, Inl err)
                | Inr frameStartDecomp \<Rightarrow>
                    case FrameStartComp (dec_seekTable d) targetFrame of
                      Inl err \<Rightarrow> Some (d, Inl err)
                    | Inr frameStartComp \<Rightarrow>
                        case Source_Seek (source d) frameStartComp 0 of
                          (src', Inl err) \<Rightarrow> Some (d\<lparr>source := src'\<rparr>, Inl err)
                        | (src', Inr _) \<Rightarrow>
                            let d1 = d\<lparr>source := src', currentFrame := targetFrame,
                                       decompressed := [], totalRead := frameStartDecomp,
                                       eofReached := False\<rparr>
                            in
                              if targetOffset > frameStartDecomp then
                                case Seek_skip d1 (targetOffset - frameStartDecomp) (replicate 4096 0) of
                                  None \<Rightarrow> None
                                | Some (d2, Some err) \<Rightarrow> Some (d2, Inl err)
                                | Some (d2, None) \<Rightarrow> Some (d2, Inr (totalRead d2))
                              else Some (d1, Inr (totalRead d1)))"

definition SetLowerFrame :: "Decoder \<Rightarrow> u32 \<Rightarrow> Decoder" where
  "SetLowerFrame d frame =
     (let d1 = d\<lparr>lowerFrame := frame\<rparr>
      in if currentFrame d1 < frame then d1\<lparr>currentFrame := frame\<rparr> else d1)"

definition SetUpperFrame :: "Decoder \<Rightarrow> u32 \<Rightarrow> Decoder" where
  "SetUpperFrame d frame =
     (let d1 = d\<lparr>upperFrame := frame\<rparr>
      in if upperFrame d1 \<ge> NumFrames (dec_seekTable d1)
         then d1\<lparr>upperFrame := NumFrames (dec_seekTable d1) - 1\<rparr> else d1)"


section \<open>Drivers and example inputs\<close>

text \<open>A sequence of \<open>ReadWithPrefix\<close> calls on one decoder, with the count and error of each.\<close>

fun read_calls :: "Decoder \<Rightarrow> (byte list \<times> byte list option) list \<Rightarrow> Decoder \<times> (nat \<times> error option) list" where
  "read_calls d [] = (d, [])"
| "read_calls d ((p, prefix) # cs) =
     (case ReadWithPrefix d p prefix of
        (d', p', n, err) \<Rightarrow>
          (case read_calls d' cs of (d'', rs) \<Rightarrow> (d'', (n, err) # rs)))"

text \<open>
  The upper bound as the specification words it: \<open>upper_frame\<close> when it lies in
  \<open>[lower, N - 1]\<close>, else \<open>N - 1\<close>.
\<close>

definition spec_upper :: "u32 \<Rightarrow> u32 \<Rightarrow> u32 \<Rightarrow> u32" where
  "spec_upper l u N = (if l \<le> u \<and> u \<le> N - 1 then u else N - 1)"

text \<open>
  An archive of three frames of 10 decompressed bytes each, with compressed sizes 5, 7
  and 4, its table, and a decoder over it. The codec of the example returns its input.
\<close>

definition demo_table :: SeekTable where
  "demo_table = \<lparr>entries =
     [\<lparr>CompressedOffset = 0, DecompressedOffset = 0\<rparr>,
      \<lparr>CompressedOffset = 5, DecompressedOffset = 10\<rparr>,
      \<lparr>CompressedOffset = 12, DecompressedOffset = 20\<rparr>,
      \<lparr>CompressedOffset = 16, DecompressedOffset = 30\<rparr>]\<rparr>"

definition demo_source :: Source where
  "demo_source = \<lparr>src_data = replicate 16 0, src_pos = 0, src_calls = 0\<rparr>"

definition demo_options :: "u32 \<Rightarrow> u32 \<Rightarrow> DecoderOptions" where
  "demo_options l u =
     \<lparr>opt_SeekTable = Some demo_table, LowerFrame = l, UpperFrame = u, Dict = [], MaxWindowLog = 27\<rparr>"

definition demo_codec :: "DecoderOptions \<Rightarrow> error + (byte list \<Rightarrow> error + byte list)" where
  "demo_codec opts = Inr (\<lambda>frame. Inr frame)"

definition demo_decoder :: "u32 \<Rightarrow> Decoder" where
  "demo_decoder cur =
     \<lparr>source = demo_source\<lparr>src_pos := 16\<rparr>, decoder = (\<lambda>frame. Inr frame),
      dec_options = demo_options 0 0, dec_seekTable = demo_table, currentFrame = cur,
      decompressed = [], lowerFrame = 0, upperFrame = 2, totalRead = 30, eofReached = False\<rparr>"

text \<open>
  Scenario B of the specification: 300 bytes, byte \<open>i\<close> being \<open>i mod 256\<close>, written
  under \<open>UncompressedFrameSize{100}\<close> into a \<open>bytes.Buffer\<close>, whose \<open>Write\<close> appends
  and never fails.
\<close>

definition buffer_write :: "byte list \<Rightarrow> byte list \<Rightarrow> byte list \<times> error option" where
  "buffer_write w bs = (w @ bs, None)"

definition scenario_data :: "byte list" where
  "scenario_data = map (\<lambda>i. word_of_nat (i mod 256)) [0..<300]"

definition scenario_options :: EncoderOptions where
  "scenario_options =
     \<lparr>Level = 2, FramePolicy = Some (UncompressedFrameSize 100), ChecksumFlag = True,
      CompressionDict = []\<rparr>"

text \<open>The options of an encoder with the policy \<open>UncompressedFrameSize{0}\<close>.\<close>

definition zero_size_options :: EncoderOptions where
  "zero_size_options =
     \<lparr>Level = 2, FramePolicy = Some (UncompressedFrameSize 0), ChecksumFlag = True,
      CompressionDict = []\<rparr>"

text \<open>
  An input of \<open>2^32\<close> zero bytes under \<open>CompressedFrameSize{2^32 - 1}\<close>. The encoder
  looks only at the length of what \<open>EncodeAll\<close> returns; \<open>length_codec\<close> stands for a
  codec on highly compressible input and returns four bytes (the length of its input).
\<close>

definition length_codec :: "byte list \<Rightarrow> byte list" where
  "length_codec bs = PutUint32 (word_of_nat (length bs))"

definition four_gib :: "byte list" where
  "four_gib = replicate 4294967296 0"

definition compressed_options :: EncoderOptions where
  "compressed_options =
     \<lparr>Level = 2, FramePolicy = Some (CompressedFrameSize 4294967295), ChecksumFlag = True,
      CompressionDict = []\<rparr>"

text \<open>The table of one frame of 1000 compressed and 2000 decompressed bytes.\<close>

definition one_frame_table :: SeekTable where
  "one_frame_table = \<lparr>entries =
     [\<lparr>CompressedOffset = 0, DecompressedOffset = 0\<rparr>,
      \<lparr>CompressedOffset = 1000, DecompressedOffset = 2000\<rparr>]\<rparr>"


text \<open>\<open>cum d i\<close> is \<open>cumulative_decompressed[i]\<close> of the decoder's table.\<close>

definition cum :: "Decoder \<Rightarrow> nat \<Rightarrow> u64" where
  "cum d i = DecompressedOffset (entries (dec_seekTable d) ! i)"


section \<open>Notions used in the proofs about the serializer\<close>

text \<open>
  Where the frame slots start, the number of whole slots written once \<open>writePos\<close>
  is \<open>p\<close>, and the state of \<open>WriteTo\<close> between two of its blocks: after \<open>b\<close> bytes
  the buffer holds the next \<open>b\<close> bytes of the table, and \<open>frameIndex\<close> agrees with
  \<open>writePos\<close>. \<open>reached lim\<close> says that a block stopped short of \<open>lim\<close> only
  because the buffer is full.
\<close>

definition startPos_of :: "Serializer \<Rightarrow> nat" where
  "startPos_of s = (if format s = FormatHead then 17 else 8)"

definition fidx :: "Serializer \<Rightarrow> nat \<Rightarrow> nat" where
  "fidx s p = min (length (frames s)) ((p - startPos_of s) div 17)"

definition wt_inv :: "Serializer \<Rightarrow> byte list \<Rightarrow> Serializer \<times> byte list \<times> nat \<times> nat \<Rightarrow> bool" where
  "wt_inv s0 buf0 x =
     (case x of (s, buf, b, r) \<Rightarrow>
        frames s = frames s0 \<and> format s = format s0
        \<and> writePos s = writePos s0 + b \<and> b + r = length buf0
        \<and> buf = take b (drop (writePos s0) (table_image s0)) @ drop b buf0
        \<and> writePos s \<le> EncodedLen s0
        \<and> frameIndex s = fidx s0 (writePos s))"

definition reached :: "nat \<Rightarrow> Serializer \<times> byte list \<times> nat \<times> nat \<Rightarrow> bool" where
  "reached lim x = (case x of (s, buf, b, r) \<Rightarrow> r > 0 \<longrightarrow> lim \<le> writePos s)"

text \<open>
  The encoder states in which \<open>WriteWithPrefix\<close> makes no progress: the policy is
  \<open>UncompressedFrameSize{0}\<close>, the open frame is empty and input is left.
\<close>

definition stuck :: "'w Encoder \<Rightarrow> byte list \<Rightarrow> bool" where
  "stuck e p = (FramePolicy (options e) = Some (UncompressedFrameSize 0) \<and> frameDSize e = 0 \<and> p \<noteq> [])"

section \<open>Properties of the seek table codec\<close>

lemmas size_defs = SKIPPABLE_HEADER_SIZE_def SEEK_TABLE_FOOTER_SIZE_def SIZE_PER_FRAME_def

lemma Uint32_PutUint32: "Uint32 (PutUint32 w) = w"
proof (rule bit_word_eqI)
  fix n assume n: "n < LENGTH(32)"
  have c: "n < 8 \<or> (8 \<le> n \<and> n < 16) \<or> (16 \<le> n \<and> n < 24) \<or> (24 \<le> n \<and> n < 32)"
    using n by auto
  show "bit (Uint32 (PutUint32 w)) n = bit w n"
    using c by (auto simp add: Uint32_def PutUint32_def bit_simps)
qed

lemma LogFrame_ok:
  assumes "length (entries st) = Suc i" and "i < 2 ^ 27"
  shows "\<exists>st'. LogFrame st c d = Inr st' \<and> length (entries st') = Suc (Suc i)"
proof -
  have "NumFrames st = word_of_nat i" using assms by (simp add: NumFrames_def)
  moreover have "unat (word_of_nat i :: u32) = i"
    using assms(2) by (simp add: unat_of_nat)
  ultimately have "\<not> NumFrames st \<ge> SEEKABLE_MAX_FRAMES"
    using assms(2) by (simp add: SEEKABLE_MAX_FRAMES_def word_le_nat_alt)
  then show ?thesis using assms(1) by (simp add: LogFrame_def Let_def)
qed

lemma parse_frames_ok:
  "length (entries st) = Suc i \<Longrightarrow> i \<le> n \<Longrightarrow> n \<le> 2 ^ 27 \<Longrightarrow>
   \<exists>st'. parse_frames data ds n i st = Inr st' \<and> length (entries st') = Suc n"
proof (induction "n - i" arbitrary: i st)
  case 0
  then show ?case by (simp add: parse_frames.simps)
next
  case (Suc k)
  then have lt: "i < n" by simp
  then have "i < 2 ^ 27" using Suc.prems by simp
  from LogFrame_ok [OF Suc.prems(1) this]
  obtain st' where st': "LogFrame st (Uint32 (slice data (ds + i * SIZE_PER_FRAME) (ds + i * SIZE_PER_FRAME + 4)))
      (Uint32 (slice data (ds + i * SIZE_PER_FRAME + 4) (ds + i * SIZE_PER_FRAME + 8))) = Inr st'"
    and len: "length (entries st') = Suc (Suc i)" by blast
  have "k = n - Suc i" using Suc.hyps(2) by simp
  from Suc.hyps(1) [OF this] len lt Suc.prems(3)
  obtain st'' where "parse_frames data ds n (Suc i) st' = Inr st''" "length (entries st'') = Suc n"
    by auto
  then show ?case using lt st'
    by (subst parse_frames.simps) (simp add: Let_def)
qed

text \<open>
  C3: \<open>ParseSeekTable\<close> fails in the order of the parse steps. An input shorter than
  9 bytes is \<open>Corrupted\<close>; otherwise a wrong seekable magic in the last 9 bytes is
  \<open>InvalidMagic\<close>; otherwise a frame count \<open>N\<close> above \<open>2 ^ 27\<close> in the footer is
  \<open>FrameIndexTooLarge\<close>; otherwise a length other than \<open>8 + 9 + 17 * N\<close> is
  \<open>Corrupted\<close>; otherwise a wrong skippable magic in the first 4 bytes is
  \<open>InvalidMagic\<close>; and when none of these holds the parse succeeds with \<open>N\<close> frames.
\<close>

theorem ParseSeekTable_errors:
  fixes data :: "byte list"
  defines "footer \<equiv> drop (length data - 9) data"
  defines "N \<equiv> Uint32 (slice footer 0 4)"
  shows "(length data < 9 \<longrightarrow> ParseSeekTable data = Inl ErrCorrupted)
    \<and> (9 \<le> length data \<and> Uint32 (slice footer 5 9) \<noteq> SEEKABLE_MAGIC_NUMBER
         \<longrightarrow> ParseSeekTable data = Inl ErrInvalidMagic)
    \<and> (9 \<le> length data \<and> Uint32 (slice footer 5 9) = SEEKABLE_MAGIC_NUMBER \<and> unat N > 2 ^ 27
         \<longrightarrow> ParseSeekTable data = Inl ErrFrameIndexTooLarge)
    \<and> (9 \<le> length data \<and> Uint32 (slice footer 5 9) = SEEKABLE_MAGIC_NUMBER \<and> unat N \<le> 2 ^ 27
         \<and> length data \<noteq> 8 + 9 + 17 * unat N
         \<longrightarrow> ParseSeekTable data = Inl ErrCorrupted)
    \<and> (9 \<le> length data \<and> Uint32 (slice footer 5 9) = SEEKABLE_MAGIC_NUMBER \<and> unat N \<le> 2 ^ 27
         \<and> length data = 8 + 9 + 17 * unat N \<and> Uint32 (slice data 0 4) \<noteq> SKIPPABLE_MAGIC_NUMBER
         \<longrightarrow> ParseSeekTable data = Inl ErrInvalidMagic)
    \<and> (9 \<le> length data \<and> Uint32 (slice footer 5 9) = SEEKABLE_MAGIC_NUMBER \<and> unat N \<le> 2 ^ 27
         \<and> length data = 8 + 9 + 17 * unat N \<and> Uint32 (slice data 0 4) = SKIPPABLE_MAGIC_NUMBER
         \<longrightarrow> (\<exists>st. ParseSeekTable data = Inr st \<and> NumFrames st = N))"
proof -
  have gt: "(N > SEEKABLE_MAX_FRAMES) = (unat N > 2 ^ 27)"
    by (simp add: SEEKABLE_MAX_FRAMES_def word_less_nat_alt)
  have ok: "\<exists>st. parse_frames data ds (unat N) 0 NewSeekTable = Inr st \<and> NumFrames st = N"
    if le: "unat N \<le> 2 ^ 27" for ds
  proof -
    have "length (entries NewSeekTable) = Suc 0" by (simp add: NewSeekTable_def)
    from parse_frames_ok [OF this _ le, of data ds]
    obtain st where "parse_frames data ds (unat N) 0 NewSeekTable = Inr st"
      and "length (entries st) = Suc (unat N)"
      by auto
    then show ?thesis by (auto simp add: NumFrames_def)
  qed
  show ?thesis
    unfolding ParseSeekTable_def Let_def size_defs footer_def [symmetric] N_def [symmetric] gt
    using ok by (auto simp add: not_less)
qed

theorem ParseSeekTable_errors_witness:
  "ParseSeekTable [0, 0, 0, 0, 0] = Inl ErrCorrupted
   \<and> ParseSeekTable [0, 0, 0, 0, 0, 0, 0, 0, 0] = Inl ErrInvalidMagic
   \<and> ParseSeekTable (PutUint32 (SEEKABLE_MAX_FRAMES + 1) @ [0] @ PutUint32 SEEKABLE_MAGIC_NUMBER)
       = Inl ErrFrameIndexTooLarge
   \<and> ParseSeekTable (PutUint32 0 @ [0] @ PutUint32 SEEKABLE_MAGIC_NUMBER) = Inl ErrCorrupted
   \<and> ParseSeekTable ([0, 0, 0, 0, 9, 0, 0, 0] @ PutUint32 0 @ [0] @ PutUint32 SEEKABLE_MAGIC_NUMBER)
       = Inl ErrInvalidMagic
   \<and> (\<exists>st. ParseSeekTable (PutUint32 SKIPPABLE_MAGIC_NUMBER @ [9, 0, 0, 0] @ PutUint32 0 @ [0]
          @ PutUint32 SEEKABLE_MAGIC_NUMBER) = Inr st \<and> NumFrames st = 0)"
proof -
  have 1: "ParseSeekTable [0, 0, 0, 0, 0] = Inl ErrCorrupted"
    using ParseSeekTable_errors [of "[0, 0, 0, 0, 0]"] by simp
  have 2: "ParseSeekTable [0, 0, 0, 0, 0, 0, 0, 0, 0] = Inl ErrInvalidMagic"
    using ParseSeekTable_errors [of "[0, 0, 0, 0, 0, 0, 0, 0, 0]"]
    by (simp add: Uint32_def slice_def SEEKABLE_MAGIC_NUMBER_def)
  have 3: "ParseSeekTable (PutUint32 (SEEKABLE_MAX_FRAMES + 1) @ [0] @ PutUint32 SEEKABLE_MAGIC_NUMBER)
       = Inl ErrFrameIndexTooLarge"
    using ParseSeekTable_errors [of "PutUint32 (SEEKABLE_MAX_FRAMES + 1) @ [0] @ PutUint32 SEEKABLE_MAGIC_NUMBER"]
    by (simp add: Uint32_def PutUint32_def slice_def SEEKABLE_MAGIC_NUMBER_def SEEKABLE_MAX_FRAMES_def)
  have 4: "ParseSeekTable (PutUint32 0 @ [0] @ PutUint32 SEEKABLE_MAGIC_NUMBER) = Inl ErrCorrupted"
    using ParseSeekTable_errors [of "PutUint32 0 @ [0] @ PutUint32 SEEKABLE_MAGIC_NUMBER"]
    by (simp add: Uint32_def PutUint32_def slice_def SEEKABLE_MAGIC_NUMBER_def)
  have 5: "ParseSeekTable ([0, 0, 0, 0, 9, 0, 0, 0] @ PutUint32 0 @ [0] @ PutUint32 SEEKABLE_MAGIC_NUMBER)
       = Inl ErrInvalidMagic"
    using ParseSeekTable_errors [of "[0, 0, 0, 0, 9, 0, 0, 0] @ PutUint32 0 @ [0] @ PutUint32 SEEKABLE_MAGIC_NUMBER"]
    by (simp add: Uint32_def PutUint32_def slice_def SEEKABLE_MAGIC_NUMBER_def SKIPPABLE_MAGIC_NUMBER_def)
  have 6: "\<exists>st. ParseSeekTable (PutUint32 SKIPPABLE_MAGIC_NUMBER @ [9, 0, 0, 0] @ PutUint32 0 @ [0]
          @ PutUint32 SEEKABLE_MAGIC_NUMBER) = Inr st \<and> NumFrames st = 0"
    using ParseSeekTable_errors [of "PutUint32 SKIPPABLE_MAGIC_NUMBER @ [9, 0, 0, 0] @ PutUint32 0 @ [0]
          @ PutUint32 SEEKABLE_MAGIC_NUMBER"]
    by (simp add: Uint32_def PutUint32_def slice_def SEEKABLE_MAGIC_NUMBER_def SKIPPABLE_MAGIC_NUMBER_def)
  from 1 2 3 4 5 6 show ?thesis by blast
qed

section \<open>Properties of the decoder\<close>

text \<open>
  C10: \<open>Seek\<close> with a \<open>whence\<close> other than Start (0), Current (1) or End (2) returns
  the error and the decoder it was given: the frame index, the buffer, the cursor, the
  end-of-stream flag and the source (its position and the calls made on it) are unchanged.
\<close>

theorem Seek_invalid_whence:
  "whence \<noteq> 0 \<Longrightarrow> whence \<noteq> 1 \<Longrightarrow> whence \<noteq> 2 \<Longrightarrow> Seek d offset whence = Some (d, Inl ErrInvalidWhence)"
  by (simp add: Seek_def)

theorem Seek_invalid_whence_witness:
  "Seek (demo_decoder 1) 5 3 = Some (demo_decoder 1, Inl ErrInvalidWhence)"
  using Seek_invalid_whence [of 3 "demo_decoder 1" 5] by simp

text \<open>
  C5, as stated, fails: with \<open>lower_frame = 2\<close> and \<open>upper_frame = 1\<close> over three
  frames the specification's rule gives 2, and \<open>NewDecoder\<close> keeps 1.
\<close>

theorem NewDecoder_upper_counterexample:
  "\<exists>d. NewDecoder demo_codec demo_source (Some (demo_options 2 1)) = Inr d
     \<and> NumFrames (dec_seekTable d) = 3
     \<and> upperFrame d = 1
     \<and> spec_upper 2 1 3 = 2"
  by (simp add: NewDecoder_def demo_codec_def demo_source_def demo_options_def demo_table_def
      spec_upper_def NumFrames_def FrameStartComp_def Source_Seek_def Let_def word_le_nat_alt)

text \<open>
  C5, amended: over a table of \<open>N \<ge> 1\<close> frames, after \<open>NewDecoder\<close> the upper frame
  bound is \<open>upper_frame\<close> when \<open>1 \<le> upper_frame \<le> N - 1\<close>, and \<open>N - 1\<close> otherwise (so
  \<open>upper_frame = 0\<close> selects the last frame); \<open>lower_frame\<close> plays no part. The bounds
  are read as numbers (\<open>unat\<close>), so \<open>N - 1\<close> is the index of the last frame.
\<close>

theorem NewDecoder_upper:
  assumes "NewDecoder zstd_NewReader src opts = Inr d"
    and "1 \<le> unat (NumFrames (dec_seekTable d))"
  shows "dec_options d = (case opts of None \<Rightarrow> DefaultDecoderOptions | Some v \<Rightarrow> v)
    \<and> unat (upperFrame d) =
        (if 1 \<le> unat (UpperFrame (dec_options d))
            \<and> unat (UpperFrame (dec_options d)) \<le> unat (NumFrames (dec_seekTable d)) - 1
         then unat (UpperFrame (dec_options d)) else unat (NumFrames (dec_seekTable d)) - 1)"
proof -
  have a: "dec_options d = (case opts of None \<Rightarrow> DefaultDecoderOptions | Some v \<Rightarrow> v)
    \<and> upperFrame d =
        (if 0 < UpperFrame (dec_options d) \<and> UpperFrame (dec_options d) < NumFrames (dec_seekTable d)
         then UpperFrame (dec_options d) else NumFrames (dec_seekTable d) - 1)"
    using assms(1)
    by (auto simp add: NewDecoder_def Let_def word_gt_0 not_le
        split: option.splits sum.splits prod.splits if_splits)
  have n1: "unat (NumFrames (dec_seekTable d) - 1) = unat (NumFrames (dec_seekTable d)) - 1"
    using assms(2) by (simp add: unat_sub word_le_nat_alt)
  have c: "(0 < UpperFrame (dec_options d) \<and> UpperFrame (dec_options d) < NumFrames (dec_seekTable d))
     = (1 \<le> unat (UpperFrame (dec_options d))
            \<and> unat (UpperFrame (dec_options d)) \<le> unat (NumFrames (dec_seekTable d)) - 1)"
    using assms(2) by (auto simp add: word_less_nat_alt)
  show ?thesis using a n1 c by simp
qed

theorem NewDecoder_upper_witness:
  "\<exists>d. NewDecoder demo_codec demo_source (Some (demo_options 0 1)) = Inr d
      \<and> unat (NumFrames (dec_seekTable d)) = 3 \<and> unat (upperFrame d) = 1"
proof -
  have "\<exists>d. NewDecoder demo_codec demo_source (Some (demo_options 0 1)) = Inr d
          \<and> dec_seekTable d = demo_table"
    by (simp add: NewDecoder_def demo_codec_def demo_source_def demo_options_def demo_table_def
      NumFrames_def FrameStartComp_def Source_Seek_def Let_def word_le_nat_alt)
  then obtain d where d: "NewDecoder demo_codec demo_source (Some (demo_options 0 1)) = Inr d"
    and t: "dec_seekTable d = demo_table" by blast
  have n: "unat (NumFrames (dec_seekTable d)) = 3" using t by (simp add: demo_table_def NumFrames_def)
  then have n1: "1 \<le> unat (NumFrames (dec_seekTable d))" by simp
  from NewDecoder_upper [OF d n1] n have "unat (upperFrame d) = 1"
    by (simp add: demo_options_def)
  then show ?thesis using d n by blast
qed

text \<open>
  C6: whenever \<open>NewDecoder\<close> succeeds, the current frame is \<open>opts.LowerFrame\<close> and the
  source stands at the compressed start of that frame (at 0 for frame 0), but the cursor
  \<open>totalRead\<close>, from which \<open>Seek\<close> resolves \<open>io.SeekCurrent\<close>, is 0 whatever the lower
  frame: \<open>NewDecoder\<close> never assigns it. The instance below has \<open>lower_frame = 1\<close> over the
  example archive: source at 5, cursor at 0, decompressed start of frame 1 at 10.
\<close>

theorem NewDecoder_cursor:
  assumes "NewDecoder zstd_NewReader src opts = Inr d"
  shows "totalRead d = 0 \<and> currentFrame d = lowerFrame d
    \<and> lowerFrame d = LowerFrame (dec_options d)
    \<and> (if lowerFrame d > 0
        then \<exists>off. FrameStartComp (dec_seekTable d) (lowerFrame d) = Inr off
               \<and> 0 \<le> sint off \<and> src_pos (source d) = nat (sint off)
        else src_pos (source d) = 0)"
  using assms
  by (auto simp add: NewDecoder_def Let_def Source_Seek_def
      split: option.splits sum.splits prod.splits if_splits)

theorem NewDecoder_cursor_witness:
  "\<exists>d. NewDecoder demo_codec demo_source (Some (demo_options 1 0)) = Inr d
     \<and> lowerFrame d = 1
     \<and> src_pos (source d) = 5 \<and> FrameStartComp (dec_seekTable d) 1 = Inr 5
     \<and> totalRead d = 0 \<and> FrameStartDecomp (dec_seekTable d) 1 = Inr 10"
proof -
  have "\<exists>d. NewDecoder demo_codec demo_source (Some (demo_options 1 0)) = Inr d
     \<and> dec_seekTable d = demo_table \<and> dec_options d = demo_options 1 0"
    by (simp add: NewDecoder_def demo_codec_def demo_source_def demo_options_def demo_table_def
      NumFrames_def FrameStartComp_def Source_Seek_def Let_def word_le_nat_alt)
  then obtain d where d: "NewDecoder demo_codec demo_source (Some (demo_options 1 0)) = Inr d"
    and t: "dec_seekTable d = demo_table" and o: "dec_options d = demo_options 1 0" by blast
  have fc: "FrameStartComp demo_table 1 = Inr 5"
    by (simp add: FrameStartComp_def NumFrames_def demo_table_def word_le_nat_alt)
  have fd: "FrameStartDecomp demo_table 1 = Inr 10"
    by (simp add: FrameStartDecomp_def NumFrames_def demo_table_def word_le_nat_alt)
  note c = NewDecoder_cursor [OF d]
  have tr: "totalRead d = 0" using c by simp
  have lf: "lowerFrame d = 1" using c o by (simp add: demo_options_def)
  have "\<exists>off. FrameStartComp (dec_seekTable d) (lowerFrame d) = Inr off
               \<and> 0 \<le> sint off \<and> src_pos (source d) = nat (sint off)"
    using c lf by simp
  then obtain off where "FrameStartComp demo_table 1 = Inr off" "src_pos (source d) = nat (sint off)"
    using t lf by auto
  then have sp: "src_pos (source d) = 5" using fc by simp
  show ?thesis using d t fc fd tr lf sp by auto
qed

lemma ReadWithPrefix_loop_EOF:
  "ReadWithPrefix_loop d p prefix n_read = (d', p', n, Some EOF) \<Longrightarrow> eofReached d' \<and> n = 0"
proof (induction d p prefix n_read rule: ReadWithPrefix_loop.induct)
  case (1 d p prefix n_read)
  note step = ReadWithPrefix_loop.simps [of d p prefix n_read]
  show ?case
  proof (cases "n_read < length p \<and> \<not> eofReached d")
    case False
    then show ?thesis using "1.prems" step by auto
  next
    case go: True
    show ?thesis
    proof (cases "0 < length (decompressed d)")
      case True
      define x where "x = min (length (decompressed d)) (length p - n_read)"
      define xa where "xa = copy_at p n_read (take x (decompressed d))"
      define xb where "xb = d\<lparr>decompressed := drop x (decompressed d), totalRead := totalRead d + word_of_nat x\<rparr>"
      have "ReadWithPrefix_loop xb xa prefix (n_read + x) = (d', p', n, Some EOF)"
        using "1.prems" step go True by (simp add: Let_def x_def xa_def xb_def)
      then show ?thesis by (rule "1.IH"(1) [OF go True x_def xa_def xb_def])
    next
      case False
      obtain d1 e1 where dn: "decompressNextFrame d prefix = (d1, e1)" by (cases "decompressNextFrame d prefix")
      show ?thesis
      proof (cases e1)
        case None
        have "ReadWithPrefix_loop d1 p prefix n_read = (d', p', n, Some EOF)"
          using "1.prems" step go False dn None by simp
        then show ?thesis by (rule "1.IH"(2) [OF go False dn [symmetric] None])
      next
        case (Some err)
        then show ?thesis using "1.prems" step go False dn by (auto split: if_splits)
      qed
    qed
  qed
qed

lemma ReadWithPrefix_EOF:
  "ReadWithPrefix d p prefix = (d', p', n, Some EOF) \<Longrightarrow> eofReached d' \<and> n = 0"
  by (auto simp add: ReadWithPrefix_def split: if_splits dest: ReadWithPrefix_loop_EOF)

lemma read_calls_eof:
  "eofReached d \<Longrightarrow> read_calls d cs = (d, map (\<lambda>c. (0, Some EOF)) cs)"
  by (induction cs) (auto simp add: ReadWithPrefix_def)

text \<open>
  C9: when a \<open>ReadWithPrefix\<close> (so also a \<open>Read\<close>) returns \<open>io.EOF\<close>, it returns 0
  bytes and leaves the end-of-stream flag set; every later \<open>ReadWithPrefix\<close> or \<open>Read\<close>,
  and every sequence of them, returns 0 bytes and \<open>io.EOF\<close> and the same decoder, so no
  call is made on the source.
\<close>

theorem Read_after_EOF:
  assumes "ReadWithPrefix d p prefix = (d', p', n, Some EOF)"
  shows "n = 0 \<and> eofReached d'
    \<and> ReadWithPrefix d' q pfx = (d', q, 0, Some EOF)
    \<and> Read d' q = (d', q, 0, Some EOF)
    \<and> read_calls d' cs = (d', map (\<lambda>c. (0, Some EOF)) cs)
    \<and> src_calls (source (fst (read_calls d' cs))) = src_calls (source d')"
  using ReadWithPrefix_EOF [OF assms]
  by (simp add: read_calls_eof ReadWithPrefix_def Read_def)

lemma demo_read_eof:
  "ReadWithPrefix (demo_decoder 3) [0, 0] None = ((demo_decoder 3)\<lparr>eofReached := True\<rparr>, [0, 0], 0, Some EOF)"
  apply (simp add: ReadWithPrefix_def demo_decoder_def)
  apply (subst ReadWithPrefix_loop.simps)
  apply (simp add: decompressNextFrame_def word_less_nat_alt)
  done

theorem Read_after_EOF_witness:
  "ReadWithPrefix (demo_decoder 3) [0, 0] None = ((demo_decoder 3)\<lparr>eofReached := True\<rparr>, [0, 0], 0, Some EOF)
   \<and> Read ((demo_decoder 3)\<lparr>eofReached := True\<rparr>) [7, 7, 7]
       = ((demo_decoder 3)\<lparr>eofReached := True\<rparr>, [7, 7, 7], 0, Some EOF)
   \<and> read_calls ((demo_decoder 3)\<lparr>eofReached := True\<rparr>) [([1], None), ([2, 3], Some [4])]
       = ((demo_decoder 3)\<lparr>eofReached := True\<rparr>, [(0, Some EOF), (0, Some EOF)])"
  using Read_after_EOF [OF demo_read_eof, of "[7, 7, 7]" None "[([1], None), ([2, 3], Some [4])]"] demo_read_eof
  by simp

section \<open>The serializer writes the table in chunks\<close>

lemma length_PutUint32 [simp]: "length (PutUint32 v) = 4"
  by (simp add: PutUint32_def)

lemma length_frameData [simp]: "length (frameData f) = 17"
  by (simp add: frameData_def)

lemma length_makeHeader [simp]: "length (makeHeader s) = 8"
  by (simp add: makeHeader_def)

lemma length_makeIntegrity [simp]: "length (makeIntegrity s) = 9"
  by (simp add: makeIntegrity_def)

lemma length_concat_chunks:
  "(\<And>x. length (f x) = c) \<Longrightarrow> length (concat (map f xs)) = length xs * c"
  by (induction xs) simp_all

lemma length_slots [simp]: "length (concat (map frameData fs)) = length fs * 17"
  by (rule length_concat_chunks) simp

lemma length_table_image: "length (table_image s) = EncodedLen s"
  by (cases "format s") (simp_all add: table_image_def EncodedLen_def size_defs)

lemma drop_concat_chunks:
  "(\<And>x. length (f x) = c) \<Longrightarrow> i < length xs \<Longrightarrow> j \<le> c \<Longrightarrow>
   drop (i * c + j) (concat (map f xs)) = drop j (f (xs ! i)) @ concat (map f (drop (Suc i) xs))"
proof (induction xs arbitrary: i)
  case Nil
  then show ?case by simp
next
  case (Cons x xs)
  show ?case
  proof (cases i)
    case 0
    then show ?thesis using Cons.prems by simp
  next
    case (Suc i')
    have "drop (i * c + j) (concat (map f (x # xs))) = drop (i' * c + j) (concat (map f xs))"
      using Suc Cons.prems(1) [of x] by (simp add: add.assoc)
    then show ?thesis using Cons.IH [of i'] Cons.prems Suc by simp
  qed
qed

lemma take_drop_segment:
  "length pre \<le> wp \<Longrightarrow> n \<le> length seg - (wp - length pre) \<Longrightarrow>
   take n (drop wp (pre @ seg @ post)) = take n (drop (wp - length pre) seg)"
  by simp

lemma copy_at_fits:
  "bufPos + length src \<le> length buf \<Longrightarrow>
   copy_at buf bufPos src = take bufPos buf @ src @ drop (bufPos + length src) buf"
  by (auto simp add: copy_at_def Let_def min_def)

lemma wt_inv_advance:
  assumes inv: "wt_inv s0 buf0 (s, buf, b, r)"
    and n: "n \<le> r"
    and fits: "writePos s + n \<le> EncodedLen s0"
    and chunk: "chunk = take n (drop (writePos s) (table_image s0))"
    and s': "frames s' = frames s" "format s' = format s" "writePos s' = writePos s + n"
      "frameIndex s' = fidx s0 (writePos s + n)"
  shows "wt_inv s0 buf0 (s', copy_at buf b chunk, b + n, r - n)"
proof -
  let ?img = "table_image s0" and ?p0 = "writePos s0"
  from inv have wp: "writePos s = ?p0 + b" and br: "b + r = length buf0"
    and buf: "buf = take b (drop ?p0 ?img) @ drop b buf0"
    and fr: "frames s = frames s0" "format s = format s0"
    by (simp_all add: wt_inv_def)
  have lc: "length chunk = n" using chunk fits by (simp add: length_table_image)
  have lb: "length (take b (drop ?p0 ?img)) = b"
    using fits wp by (simp add: length_table_image)
  have lbuf: "length buf = length buf0" using buf lb br by simp
  have c1: "copy_at buf b chunk = take b buf @ chunk @ drop (b + n) buf"
    using copy_at_fits [of b chunk buf] lc lbuf br n by simp
  have t1: "take b buf = take b (drop ?p0 ?img)" using buf lb by simp
  have d1: "drop (b + n) buf = drop (b + n) buf0" using buf lb by (simp add: add.commute)
  have "take (b + n) (drop ?p0 ?img) = take b (drop ?p0 ?img) @ take n (drop b (drop ?p0 ?img))"
    by (rule take_add)
  also have "take n (drop b (drop ?p0 ?img)) = chunk" using chunk wp by (simp add: add.commute)
  finally have "copy_at buf b chunk = take (b + n) (drop ?p0 ?img) @ drop (b + n) buf0"
    using c1 t1 d1 by simp
  then show ?thesis using wp br fr fits s' n by (simp add: wt_inv_def)
qed

lemma image_header: "table_image s = makeHeader s @ drop 8 (table_image s)"
  by (cases "format s") (simp_all add: table_image_def)

lemma makeHeader_cong: "frames s = frames s0 \<Longrightarrow> makeHeader s = makeHeader s0"
  by (simp add: makeHeader_def frameSize_def)

lemma makeIntegrity_cong: "frames s = frames s0 \<Longrightarrow> makeIntegrity s = makeIntegrity s0"
  by (simp add: makeIntegrity_def)

lemma EncodedLen_ge: "17 \<le> EncodedLen s"
  by (simp add: EncodedLen_def size_defs)

lemma header_stage:
  assumes inv: "wt_inv s0 buf0 (s, buf, b, r)"
  shows "wt_inv s0 buf0 (WriteTo_header s buf b r) \<and> reached 8 (WriteTo_header s buf b r)"
proof (cases "writePos s < 8")
  case False
  then show ?thesis using inv by (simp add: WriteTo_header_def reached_def size_defs)
next
  case True
  define needed where "needed = min (8 - writePos s) r"
  define s' where "s' = s\<lparr>writePos := writePos s + needed\<rparr>"
  from inv have fr: "frames s = frames s0" and fi: "frameIndex s = fidx s0 (writePos s)"
    by (simp_all add: wt_inv_def)
  have le8: "writePos s + needed \<le> 8" using True by (auto simp add: needed_def min_def)
  have chunk: "slice (makeHeader s) (writePos s) (writePos s + needed)
      = take needed (drop (writePos s) (table_image s0))"
  proof -
    have "take needed (drop (writePos s) (table_image s0))
        = take needed (drop (writePos s) (makeHeader s0 @ drop 8 (table_image s0)))"
      using image_header [of s0] by simp
    also have "\<dots> = take needed (drop (writePos s) (makeHeader s0))"
      using le8 by simp
    finally show ?thesis using makeHeader_cong [OF fr] by (simp add: slice_def)
  qed
  have f0: "fidx s0 (writePos s + needed) = fidx s0 (writePos s)"
    using le8 by (simp add: fidx_def startPos_of_def)
  have "wt_inv s0 buf0 (s', copy_at buf b (slice (makeHeader s) (writePos s) (writePos s + needed)),
      b + needed, r - needed)"
  proof (rule wt_inv_advance [OF inv])
    show "needed \<le> r" by (simp add: needed_def)
    show "writePos s + needed \<le> EncodedLen s0" using le8 EncodedLen_ge [of s0] by simp
    show "slice (makeHeader s) (writePos s) (writePos s + needed)
      = take needed (drop (writePos s) (table_image s0))" by (rule chunk)
    show "frames s' = frames s" "format s' = format s" "writePos s' = writePos s + needed"
      by (simp_all add: s'_def)
    show "frameIndex s' = fidx s0 (writePos s + needed)" using f0 fi by (simp add: s'_def)
  qed
  moreover have "r - needed > 0 \<longrightarrow> 8 \<le> writePos s'"
    by (auto simp add: needed_def s'_def min_def split: if_splits)
  ultimately show ?thesis using True
    by (simp add: WriteTo_header_def reached_def size_defs Let_def needed_def s'_def)
qed

lemma head_integrity_stage:
  assumes inv: "wt_inv s0 buf0 (s, buf, b, r)" and pre: "reached 8 (s, buf, b, r)"
  shows "wt_inv s0 buf0 (WriteTo_head_integrity s buf b r)
     \<and> reached (startPos_of s0) (WriteTo_head_integrity s buf b r)"
proof (cases "format s = FormatHead \<and> 8 \<le> writePos s \<and> writePos s < 17")
  case False
  from inv have fmt: "format s = format s0" by (simp add: wt_inv_def)
  have "reached (startPos_of s0) (s, buf, b, r)"
    using pre False fmt by (auto simp add: reached_def startPos_of_def)
  moreover have "WriteTo_head_integrity s buf b r = (s, buf, b, r)"
    using False by (auto simp add: WriteTo_head_integrity_def size_defs)
  ultimately show ?thesis using inv by simp
next
  case True
  define ip where "ip = writePos s - 8"
  define needed where "needed = min (9 - ip) r"
  define s' where "s' = s\<lparr>writePos := writePos s + needed\<rparr>"
  from inv have fr: "frames s = frames s0" and fi: "frameIndex s = fidx s0 (writePos s)"
    and fmt: "format s = format s0"
    by (simp_all add: wt_inv_def)
  have head: "format s0 = FormatHead" using True fmt by simp
  have le17: "writePos s + needed \<le> 17" using True by (auto simp add: needed_def ip_def min_def)
  have chunk: "slice (makeIntegrity s) ip (ip + needed)
      = take needed (drop (writePos s) (table_image s0))"
  proof -
    have "take needed (drop (writePos s) (table_image s0))
        = take needed (drop (writePos s) (makeHeader s0 @ makeIntegrity s0 @ concat (map frameData (frames s0))))"
      using head by (simp add: table_image_def)
    also have "\<dots> = take needed (drop (writePos s - length (makeHeader s0)) (makeIntegrity s0))"
      using True by (intro take_drop_segment) (simp_all add: needed_def ip_def)
    finally show ?thesis using makeIntegrity_cong [OF fr] by (simp add: slice_def ip_def)
  qed
  have f0: "fidx s0 (writePos s + needed) = fidx s0 (writePos s)"
    using le17 head by (simp add: fidx_def startPos_of_def)
  have "wt_inv s0 buf0 (s', copy_at buf b (slice (makeIntegrity s) ip (ip + needed)),
      b + needed, r - needed)"
  proof (rule wt_inv_advance [OF inv])
    show "needed \<le> r" by (simp add: needed_def)
    show "writePos s + needed \<le> EncodedLen s0" using le17 EncodedLen_ge [of s0] by simp
    show "slice (makeIntegrity s) ip (ip + needed)
      = take needed (drop (writePos s) (table_image s0))" by (rule chunk)
    show "frames s' = frames s" "format s' = format s" "writePos s' = writePos s + needed"
      by (simp_all add: s'_def)
    show "frameIndex s' = fidx s0 (writePos s + needed)" using f0 fi by (simp add: s'_def)
  qed
  moreover have "r - needed > 0 \<longrightarrow> 17 \<le> writePos s'"
    using True by (auto simp add: needed_def s'_def ip_def min_def split: if_splits)
  ultimately show ?thesis using True head
    by (simp add: WriteTo_head_integrity_def reached_def size_defs Let_def needed_def s'_def ip_def
        startPos_of_def)
qed

lemma image_slots:
  "drop (startPos_of s0) (table_image s0)
     = concat (map frameData (frames s0)) @ (if format s0 = FormatFoot then makeIntegrity s0 else [])"
  by (cases "format s0") (simp_all add: table_image_def startPos_of_def)

lemma slot_chunk:
  assumes q: "q div 17 < length fs" and n: "n \<le> 17 - q mod 17"
  shows "take n (drop q (concat (map frameData fs) @ post))
       = take n (drop (q mod 17) (frameData (fs ! (q div 17))))"
proof -
  have ql: "q \<le> length (concat (map frameData fs))"
  proof -
    have "q = q div 17 * 17 + q mod 17" by simp
    moreover have "Suc (q div 17) * 17 \<le> length fs * 17" using q by (simp only: Suc_leI mult_le_mono1)
    ultimately show ?thesis by simp
  qed
  have "drop q (concat (map frameData fs)) = drop (q div 17 * 17 + q mod 17) (concat (map frameData fs))"
    by simp
  also have "\<dots> = drop (q mod 17) (frameData (fs ! (q div 17))) @ concat (map frameData (drop (Suc (q div 17)) fs))"
    using q by (intro drop_concat_chunks) simp_all
  finally have "drop q (concat (map frameData fs) @ post)
      = drop (q mod 17) (frameData (fs ! (q div 17))) @ (concat (map frameData (drop (Suc (q div 17)) fs)) @ post)"
    using ql by simp
  then show ?thesis using n by simp
qed

lemma frames_stage:
  "wt_inv s0 buf0 (s, buf, b, r) \<Longrightarrow> reached (startPos_of s0) (s, buf, b, r) \<Longrightarrow>
   \<exists>x. WriteTo_frames (startPos_of s0) s buf b r = Some x \<and> wt_inv s0 buf0 x
       \<and> reached (startPos_of s0 + 17 * length (frames s0)) x"
proof (induction r arbitrary: s buf b rule: less_induct)
  case (less r)
  note inv = less.prems(1) and pre = less.prems(2)
  let ?sp = "startPos_of s0" and ?N = "length (frames s0)"
  from inv have fr: "frames s = frames s0" and fi: "frameIndex s = fidx s0 (writePos s)"
    and fmt: "format s = format s0" and wpL: "writePos s \<le> EncodedLen s0"
    by (simp_all add: wt_inv_def)
  note step = WriteTo_frames.simps [of ?sp s buf b r]
  show ?case
  proof (cases "frameIndex s < length (frames s) \<and> r > 0")
    case False
    then have res: "WriteTo_frames ?sp s buf b r = Some (s, buf, b, r)" using step by auto
    have "reached (?sp + 17 * ?N) (s, buf, b, r)"
    proof (cases "r > 0")
      case True
      then have "?N \<le> fidx s0 (writePos s)" using False fr fi by simp
      then have "?N \<le> (writePos s - ?sp) div 17" by (simp add: fidx_def)
      then have "17 * ?N \<le> writePos s - ?sp" by (simp add: less_eq_div_iff_mult_less_eq mult.commute)
      moreover have "?sp \<le> writePos s" using pre True by (simp add: reached_def)
      ultimately have "?sp + 17 * ?N \<le> writePos s" by linarith
      then show ?thesis by (simp add: reached_def)
    next
      case False
      then show ?thesis by (simp add: reached_def)
    qed
    then show ?thesis using res inv by simp
  next
    case True
    then have rpos: "0 < r" and fiN: "frameIndex s < ?N" using fr by simp_all
    have sple: "?sp \<le> writePos s" using pre rpos by (simp add: reached_def)
    define q where "q = writePos s - ?sp"
    have wq: "writePos s = ?sp + q" using sple by (simp add: q_def)
    have qN: "q div 17 < ?N" using fiN fi by (simp add: fidx_def q_def)
    have fiq: "frameIndex s = q div 17" using fi qN by (simp add: fidx_def q_def)
    define needed where "needed = min (17 - q mod 17) r"
    have npos: "0 < needed" using rpos by (simp add: needed_def)
    have nle: "needed \<le> 17 - q mod 17" by (simp add: needed_def)
    define s' where "s' = s\<lparr>writePos := writePos s + needed,
        frameIndex := (if q mod 17 + needed = 17 then frameIndex s + 1 else frameIndex s)\<rparr>"
    define buf' where "buf' = copy_at buf b (slice (frameData (frames s ! (q div 17))) (q mod 17) (q mod 17 + needed))"
    have rec: "WriteTo_frames ?sp s buf b r = WriteTo_frames ?sp s' buf' (b + needed) (r - needed)"
      using step True sple qN fr
      by (simp add: Let_def size_defs q_def [symmetric] needed_def [symmetric] s'_def buf'_def)
    have qbound: "q + needed \<le> 17 * ?N"
    proof -
      have "q = 17 * (q div 17) + q mod 17" by simp
      moreover have "17 * (q div 17) + 17 \<le> 17 * ?N" using qN by linarith
      moreover have "q mod 17 < 17" by simp
      ultimately show ?thesis using nle by linarith
    qed
    have chunk: "slice (frameData (frames s ! (q div 17))) (q mod 17) (q mod 17 + needed)
        = take needed (drop (writePos s) (table_image s0))"
    proof -
      have "drop (writePos s) (table_image s0) = drop q (drop ?sp (table_image s0))"
        using wq by (simp add: add.commute)
      then have "take needed (drop (writePos s) (table_image s0))
          = take needed (drop (q mod 17) (frameData (frames s0 ! (q div 17))))"
        using slot_chunk [OF qN nle] by (simp add: image_slots)
      then show ?thesis using fr by (simp add: slice_def)
    qed
    have newfi: "(if q mod 17 + needed = 17 then frameIndex s + 1 else frameIndex s)
        = fidx s0 (writePos s + needed)"
    proof -
      have e: "(q + needed) div 17 = (if q mod 17 + needed = 17 then q div 17 + 1 else q div 17)"
      proof (cases "q mod 17 + needed = 17")
        case True
        have "q + needed = (q div 17 + 1) * 17" using True
          by (metis add.assoc add.commute div_mult_mod_eq distrib_right mult_1)
        then show ?thesis using True by simp
      next
        case False
        then have lt: "q mod 17 + needed < 17" using nle by simp
        have "q + needed = q div 17 * 17 + (q mod 17 + needed)" by simp
        then have "(q + needed) div 17 = q div 17 + (q mod 17 + needed) div 17"
          by (metis div_mult_self3 zero_neq_numeral)
        then show ?thesis using lt False by simp
      qed
      have "(q + needed) div 17 \<le> ?N" using qN e by (simp split: if_splits)
      then have "fidx s0 (writePos s + needed) = (q + needed) div 17"
        using wq by (simp add: fidx_def)
      then show ?thesis using e fiq by simp
    qed
    have inv': "wt_inv s0 buf0 (s', buf', b + needed, r - needed)"
      unfolding buf'_def
    proof (rule wt_inv_advance [OF inv])
      show "needed \<le> r" by (simp add: needed_def)
      show "writePos s + needed \<le> EncodedLen s0"
        using qbound wq by (simp add: EncodedLen_def size_defs startPos_of_def)
      show "slice (frameData (frames s ! (q div 17))) (q mod 17) (q mod 17 + needed)
        = take needed (drop (writePos s) (table_image s0))" by (rule chunk)
      show "frames s' = frames s" "format s' = format s" "writePos s' = writePos s + needed"
        by (simp_all add: s'_def)
      show "frameIndex s' = fidx s0 (writePos s + needed)" using newfi by (simp add: s'_def)
    qed
    have pre': "reached ?sp (s', buf', b + needed, r - needed)"
      using sple by (simp add: reached_def s'_def)
    have "r - needed < r" using npos rpos by simp
    from less.IH [OF this inv' pre'] rec show ?thesis by simp
  qed
qed

lemma fidx_cong: "frames s = frames s0 \<Longrightarrow> format s = format s0 \<Longrightarrow> fidx s p = fidx s0 p"
  by (simp add: fidx_def startPos_of_def)

lemma foot_integrity_stage:
  assumes inv: "wt_inv s0 buf0 (s, buf, b, r)"
    and pre: "reached (startPos_of s0 + 17 * length (frames s0)) (s, buf, b, r)"
  shows "\<exists>s' buf' b' r'. WriteTo_foot_integrity (startPos_of s0) s buf b r = Some (s', buf', b')
      \<and> wt_inv s0 buf0 (s', buf', b', r') \<and> (r' > 0 \<longrightarrow> writePos s' = EncodedLen s0)"
proof -
  let ?sp = "startPos_of s0" and ?N = "length (frames s0)"
  from inv have fr: "frames s = frames s0" and fi: "frameIndex s = fidx s0 (writePos s)"
    and fmt: "format s = format s0" and wpL: "writePos s \<le> EncodedLen s0"
    by (simp_all add: wt_inv_def)
  show ?thesis
  proof (cases "format s0")
    case FormatHead
    then have res: "WriteTo_foot_integrity ?sp s buf b r = Some (s, buf, b)"
      using fmt by (simp add: WriteTo_foot_integrity_def)
    have "r > 0 \<longrightarrow> writePos s = EncodedLen s0"
      using pre wpL FormatHead by (auto simp add: reached_def startPos_of_def EncodedLen_def size_defs)
    then show ?thesis using res inv
      by (intro exI [of _ s] exI [of _ buf] exI [of _ b] exI [of _ r]) simp
  next
    case FormatFoot
    then have sp8: "?sp = 8" by (simp add: startPos_of_def)
    have L: "EncodedLen s0 = 8 + 17 * ?N + 9" by (simp add: EncodedLen_def size_defs)
    show ?thesis
    proof (cases "r > 0")
      case False
      then have res: "WriteTo_foot_integrity ?sp s buf b r = Some (s, buf, b)"
        by (simp add: WriteTo_foot_integrity_def Let_def)
      show ?thesis using res inv False
        by (intro exI [of _ s] exI [of _ buf] exI [of _ b] exI [of _ r]) simp
    next
      case True
      then have ge: "8 + 17 * ?N \<le> writePos s" using pre sp8 by (simp add: reached_def)
      define ip where "ip = writePos s - (8 + 17 * ?N)"
      have ip9: "ip \<le> 9" using wpL L by (simp add: ip_def)
      define needed where "needed = min (9 - ip) r"
      define s' where "s' = s\<lparr>writePos := writePos s + needed\<rparr>"
      define buf' where "buf' = copy_at buf b (slice (makeIntegrity s) ip (ip + needed))"
      have res: "WriteTo_foot_integrity ?sp s buf b r = Some (s', buf', b + needed)"
        using True ge ip9 fmt FormatFoot fr sp8
        by (simp add: WriteTo_foot_integrity_def Let_def size_defs mult.commute
            ip_def needed_def s'_def buf'_def)
      have nle: "needed \<le> 9 - ip" by (simp add: needed_def)
      have chunk: "slice (makeIntegrity s) ip (ip + needed)
          = take needed (drop (writePos s) (table_image s0))"
      proof -
        have img: "table_image s0 = (makeHeader s0 @ concat (map frameData (frames s0))) @ makeIntegrity s0 @ []"
          using FormatFoot by (simp add: table_image_def)
        have "take needed (drop (writePos s) (table_image s0))
            = take needed (drop (writePos s - length (makeHeader s0 @ concat (map frameData (frames s0)))) (makeIntegrity s0))"
          unfolding img using ge nle by (intro take_drop_segment) (simp_all add: ip_def)
        then show ?thesis using makeIntegrity_cong [OF fr] by (simp add: slice_def ip_def mult.commute)
      qed
      have fN: "fidx s0 p = ?N" if "8 + 17 * ?N \<le> p" for p
      proof -
        have "17 * ?N \<le> p - 8" using that by simp
        then have "?N \<le> (p - 8) div 17" by (simp add: less_eq_div_iff_mult_less_eq mult.commute)
        then show ?thesis using sp8 by (simp add: fidx_def)
      qed
      have inv': "wt_inv s0 buf0 (s', buf', b + needed, r - needed)"
        unfolding buf'_def
      proof (rule wt_inv_advance [OF inv])
        show "needed \<le> r" by (simp add: needed_def)
        show "writePos s + needed \<le> EncodedLen s0" using nle ge L wpL by (simp add: ip_def)
        show "slice (makeIntegrity s) ip (ip + needed)
          = take needed (drop (writePos s) (table_image s0))" by (rule chunk)
        show "frames s' = frames s" "format s' = format s" "writePos s' = writePos s + needed"
          by (simp_all add: s'_def)
        show "frameIndex s' = fidx s0 (writePos s + needed)"
          using fi fN [of "writePos s"] fN [of "writePos s + needed"] ge by (simp add: s'_def)
      qed
      have "r - needed > 0 \<longrightarrow> writePos s' = EncodedLen s0"
        using ge ip9 L by (auto simp add: needed_def s'_def ip_def min_def split: if_splits)
      then show ?thesis using res inv'
        by (intro exI [of _ s'] exI [of _ buf'] exI [of _ "b + needed"] exI [of _ "r - needed"]) simp
    qed
  qed
qed

lemma WriteTo_spec:
  fixes s0 :: Serializer and buf0 :: "byte list"
  assumes wp: "writePos s0 \<le> EncodedLen s0" and fi: "frameIndex s0 = fidx s0 (writePos s0)"
  defines "n \<equiv> min (length buf0) (EncodedLen s0 - writePos s0)"
  shows "\<exists>s'. WriteTo s0 buf0 = Some (s', take n (drop (writePos s0) (table_image s0)) @ drop n buf0, n)
      \<and> frames s' = frames s0 \<and> format s' = format s0 \<and> writePos s' = writePos s0 + n
      \<and> frameIndex s' = fidx s' (writePos s')"
proof -
  have inv0: "wt_inv s0 buf0 (s0, buf0, 0, length buf0)" using wp fi by (simp add: wt_inv_def)
  obtain s1 buf1 b1 r1 where h: "WriteTo_header s0 buf0 0 (length buf0) = (s1, buf1, b1, r1)"
    by (cases "WriteTo_header s0 buf0 0 (length buf0)")
  from header_stage [OF inv0] h have inv1: "wt_inv s0 buf0 (s1, buf1, b1, r1)"
    and re1: "reached 8 (s1, buf1, b1, r1)" by simp_all
  obtain s2 buf2 b2 r2 where hi: "WriteTo_head_integrity s1 buf1 b1 r1 = (s2, buf2, b2, r2)"
    by (cases "WriteTo_head_integrity s1 buf1 b1 r1")
  from head_integrity_stage [OF inv1 re1] hi have inv2: "wt_inv s0 buf0 (s2, buf2, b2, r2)"
    and re2: "reached (startPos_of s0) (s2, buf2, b2, r2)" by simp_all
  from inv2 have fmt2: "format s2 = format s0" by (simp add: wt_inv_def)
  have sp: "(if format s2 = FormatHead then SKIPPABLE_HEADER_SIZE + SEEK_TABLE_FOOTER_SIZE
             else SKIPPABLE_HEADER_SIZE) = startPos_of s0"
    using fmt2 by (simp add: startPos_of_def size_defs)
  from frames_stage [OF inv2 re2] obtain s3 buf3 b3 r3 where
    fs: "WriteTo_frames (startPos_of s0) s2 buf2 b2 r2 = Some (s3, buf3, b3, r3)"
    and inv3: "wt_inv s0 buf0 (s3, buf3, b3, r3)"
    and re3: "reached (startPos_of s0 + 17 * length (frames s0)) (s3, buf3, b3, r3)"
    by (metis prod_cases4)
  from foot_integrity_stage [OF inv3 re3] obtain s' buf' b' r' where
    ft: "WriteTo_foot_integrity (startPos_of s0) s3 buf3 b3 r3 = Some (s', buf', b')"
    and inv': "wt_inv s0 buf0 (s', buf', b', r')"
    and fin: "r' > 0 \<longrightarrow> writePos s' = EncodedLen s0" by blast
  have res: "WriteTo s0 buf0 = Some (s', buf', b')"
    using h hi fs ft by (simp add: WriteTo_def sp)
  from inv' have f: "frames s' = frames s0" "format s' = format s0" "writePos s' = writePos s0 + b'"
    "b' + r' = length buf0" "buf' = take b' (drop (writePos s0) (table_image s0)) @ drop b' buf0"
    "writePos s' \<le> EncodedLen s0" "frameIndex s' = fidx s0 (writePos s')"
    by (simp_all add: wt_inv_def)
  have bn: "b' = n"
  proof (cases "r' > 0")
    case True
    then show ?thesis using fin f(3,4) by (simp add: n_def)
  next
    case False
    then show ?thesis using f(3,4,6) by (simp add: n_def)
  qed
  show ?thesis using res f bn fidx_cong [OF f(1,2)] by simp
qed

lemma table_image_cong:
  "frames s = frames s0 \<Longrightarrow> format s = format s0 \<Longrightarrow> table_image s = table_image s0"
  using makeHeader_cong [of s s0] makeIntegrity_cong [of s s0]
  by (cases "format s0") (simp_all add: table_image_def)

lemma EncodedLen_cong: "frames s = frames s0 \<Longrightarrow> EncodedLen s = EncodedLen s0"
  by (simp add: EncodedLen_def)

lemma write_chunks_spec:
  "0 < length buf \<Longrightarrow> writePos s \<le> EncodedLen s \<Longrightarrow> frameIndex s = fidx s (writePos s) \<Longrightarrow>
   write_chunks s buf out = Some (out @ drop (writePos s) (table_image s))"
proof (induction "EncodedLen s - writePos s" arbitrary: s buf out rule: less_induct)
  case less
  note k = less.prems(1) and wp = less.prems(2) and fi = less.prems(3)
  define n where "n = min (length buf) (EncodedLen s - writePos s)"
  from WriteTo_spec [OF wp fi, of buf] obtain s' where
    w: "WriteTo s buf = Some (s', take n (drop (writePos s) (table_image s)) @ drop n buf, n)"
    and f: "frames s' = frames s" "format s' = format s" "writePos s' = writePos s + n"
      "frameIndex s' = fidx s' (writePos s')"
    by (auto simp add: n_def)
  show ?case
  proof (cases "n = 0")
    case True
    then have "writePos s = EncodedLen s" using k wp by (simp add: n_def min_def split: if_splits)
    then have "drop (writePos s) (table_image s) = []" by (simp add: length_table_image)
    then show ?thesis using w True by (subst write_chunks.simps) simp
  next
    case False
    let ?buf' = "take n (drop (writePos s) (table_image s)) @ drop n buf"
    have ln: "length (take n (drop (writePos s) (table_image s))) = n"
      by (simp add: length_table_image n_def)
    have tk: "take n ?buf' = take n (drop (writePos s) (table_image s))" using ln by simp
    have st: "write_chunks s buf out = write_chunks s' ?buf' (out @ take n ?buf')"
      using w False by (subst write_chunks.simps) simp
    have m: "EncodedLen s' - writePos s' < EncodedLen s - writePos s"
    proof -
      have "0 < n" "n \<le> EncodedLen s - writePos s" using False by (simp_all add: n_def)
      then show ?thesis using f(3) EncodedLen_cong [OF f(1)] wp by linarith
    qed
    have k': "0 < length ?buf'" using k ln by (simp add: n_def)
    have wp': "writePos s' \<le> EncodedLen s'"
      using f(3) EncodedLen_cong [OF f(1)] wp by (simp add: n_def)
    from less.hyps [OF m k' wp' f(4)]
    have "write_chunks s' ?buf' (out @ take n ?buf')
        = Some ((out @ take n ?buf') @ drop (writePos s') (table_image s'))" .
    also have "(out @ take n ?buf') @ drop (writePos s') (table_image s')
        = out @ (take n (drop (writePos s) (table_image s)) @ drop n (drop (writePos s) (table_image s)))"
      using tk f(3) table_image_cong [OF f(1,2)] by (simp add: add.commute)
    also have "\<dots> = out @ drop (writePos s) (table_image s)"
      by (simp only: append_take_drop_id)
    finally show ?thesis using st by simp
  qed
qed

lemma Finish_loop_spec:
  assumes wr_ok: "\<And>w bs. snd (wr w bs) = None"
  shows "0 < length buf \<Longrightarrow> writePos s \<le> EncodedLen s \<Longrightarrow> frameIndex s = fidx s (writePos s) \<Longrightarrow>
   \<exists>w'. Finish_loop wr w s buf = Some (w', None)"
proof (induction "EncodedLen s - writePos s" arbitrary: s buf w rule: less_induct)
  case less
  note k = less.prems(1) and wp = less.prems(2) and fi = less.prems(3)
  define n where "n = min (length buf) (EncodedLen s - writePos s)"
  from WriteTo_spec [OF wp fi, of buf] obtain s' where
    w: "WriteTo s buf = Some (s', take n (drop (writePos s) (table_image s)) @ drop n buf, n)"
    and f: "frames s' = frames s" "format s' = format s" "writePos s' = writePos s + n"
      "frameIndex s' = fidx s' (writePos s')"
    by (auto simp add: n_def)
  show ?case
  proof (cases "n = 0")
    case True
    then show ?thesis using w by (subst Finish_loop.simps) simp
  next
    case False
    let ?buf' = "take n (drop (writePos s) (table_image s)) @ drop n buf"
    obtain w1 r1 where w1: "wr w (take n ?buf') = (w1, r1)" by (cases "wr w (take n ?buf')")
    with wr_ok [of w "take n ?buf'"] have w1': "wr w (take n ?buf') = (w1, None)" by simp
    have ln: "length (take n (drop (writePos s) (table_image s))) = n"
      by (simp add: length_table_image n_def)
    have st: "Finish_loop wr w s buf = Finish_loop wr w1 s' ?buf'"
      using w False w1' by (subst Finish_loop.simps) simp
    have m: "EncodedLen s' - writePos s' < EncodedLen s - writePos s"
    proof -
      have "0 < n" "n \<le> EncodedLen s - writePos s" using False by (simp_all add: n_def)
      then show ?thesis using f(3) EncodedLen_cong [OF f(1)] wp by linarith
    qed
    have k': "0 < length ?buf'" using k ln by (simp add: n_def)
    have wp': "writePos s' \<le> EncodedLen s'"
      using f(3) EncodedLen_cong [OF f(1)] wp by (simp add: n_def)
    from less.hyps [OF m k' wp' f(4), of w1] st show ?thesis by simp
  qed
qed

lemma length_entry_frames: "length (entry_frames es) = length es - 1"
  by (induction es rule: entry_frames.induct) simp_all

lemma NewSerializer_start:
  "writePos (NewSerializer st fmt) \<le> EncodedLen (NewSerializer st fmt)"
  "frameIndex (NewSerializer st fmt) = fidx (NewSerializer st fmt) (writePos (NewSerializer st fmt))"
  by (simp_all add: NewSerializer_def fidx_def)

text \<open>
  C8: for every seek table, both formats and every buffer of \<open>k \<ge> 1\<close> bytes, calling
  \<open>WriteTo\<close> with that buffer until it returns 0 emits the table's bytes, the same
  bytes that one call with a buffer of \<open>EncodedLen\<close> bytes writes, \<open>EncodedLen\<close> of
  them, which is \<open>8 + 9 + 17 * N\<close>. The bytes are the layout of the specification.
\<close>

theorem chunked_serialization:
  assumes "entries st \<noteq> []" and "0 < length buf" and "length big = EncodedLen (NewSerializer st fmt)"
  shows "write_chunks (NewSerializer st fmt) buf [] = Some (table_image (NewSerializer st fmt))
     \<and> (\<exists>s'. WriteTo (NewSerializer st fmt) big
            = Some (s', table_image (NewSerializer st fmt), EncodedLen (NewSerializer st fmt)))
     \<and> length (table_image (NewSerializer st fmt)) = EncodedLen (NewSerializer st fmt)
     \<and> EncodedLen (NewSerializer st fmt) = 8 + 9 + 17 * (length (entries st) - 1)"
proof -
  let ?s = "NewSerializer st fmt"
  have p0: "writePos ?s = 0" by (simp add: NewSerializer_def)
  have a: "write_chunks ?s buf [] = Some (table_image ?s)"
    using write_chunks_spec [OF assms(2) NewSerializer_start, of st fmt "[]"] p0 by simp
  from WriteTo_spec [OF NewSerializer_start, of st fmt big] obtain s' where
    "WriteTo ?s big = Some (s', take (min (length big) (EncodedLen ?s - writePos ?s)) (drop (writePos ?s) (table_image ?s))
        @ drop (min (length big) (EncodedLen ?s - writePos ?s)) big, min (length big) (EncodedLen ?s - writePos ?s))"
    by blast
  then have b: "WriteTo ?s big = Some (s', table_image ?s, EncodedLen ?s)"
    using assms(3) p0 by (simp add: length_table_image)
  have c: "EncodedLen ?s = 8 + 9 + 17 * (length (entries st) - 1)"
    by (simp add: EncodedLen_def NewSerializer_def size_defs length_entry_frames)
  show ?thesis using a b c length_table_image [of ?s] by blast
qed

theorem chunked_serialization_witness:
  "write_chunks (NewSerializer demo_table FormatFoot) (replicate 7 0) []
      = Some (table_image (NewSerializer demo_table FormatFoot))
   \<and> (\<exists>s'. WriteTo (NewSerializer demo_table FormatFoot) (replicate 68 0)
          = Some (s', table_image (NewSerializer demo_table FormatFoot), 68))
   \<and> length (table_image (NewSerializer demo_table FormatFoot)) = 68"
  using chunked_serialization [of demo_table "replicate 7 0" "replicate 68 0" FormatFoot]
  by (simp add: demo_table_def EncodedLen_def NewSerializer_def size_defs)

section \<open>Properties of the encoder\<close>

lemma unat_ucast_32_64: "unat (ucast (w :: u32) :: u64) = unat w"
proof -
  have "unat w < 2 ^ 64" using unsigned_less [of w, where ?'a = nat] by simp
  then show ?thesis by (simp add: unsigned_ucast_eq take_bit_nat_eq_self)
qed

lemma sint_small:
  assumes "unat (w :: u64) < 2 ^ 63"
  shows "sint w = int (unat w)"
proof -
  have lt: "uint w < 2 ^ 63" using assms by (metis of_nat_less_iff of_nat_numeral of_nat_power uint_nat)
  have ge: "- (2 ^ 63) \<le> uint w"
  proof -
    have "(0::int) \<le> uint w" by simp
    moreover have "- (2 ^ 63) \<le> (0::int)" by simp
    ultimately show ?thesis by (rule order_trans [rotated])
  qed
  have "sint w = signed_take_bit 63 (uint w)" by (simp add: sint_uint)
  also have "\<dots> = uint w" using ge lt by (rule signed_take_bit_int_eq_self)
  finally show ?thesis by simp
qed

lemma ucast_64_32:
  assumes "unat (w :: u64) = unat (v :: u32)"
  shows "(ucast w :: u32) = v"
proof -
  have "unat (ucast w :: u32) = take_bit 32 (unat w)" by (simp add: unsigned_ucast_eq)
  also have "\<dots> = unat v" using assms unsigned_less [of v, where ?'a = nat]
    by (simp add: take_bit_nat_eq_self)
  finally show ?thesis by (simp add: word_unat_eq_iff)
qed

lemma unat_add_of_nat:
  assumes "unat (w :: u64) + n < 2 ^ 64"
  shows "unat (w + word_of_nat n) = unat w + n"
proof -
  have "n < 2 ^ 64" using assms by simp
  then have "unat (word_of_nat n :: u64) = n" by (simp add: unat_of_nat)
  then show ?thesis using assms by (simp add: unat_word_ariths)
qed

lemma remaining_uncompressed:
  assumes "FramePolicy (options e) = Some (UncompressedFrameSize sz)"
    and "unat (frameDSize e) \<le> unat sz"
  shows "remainingFrameSize e = int (unat sz - unat (frameDSize e))"
proof -
  have le: "frameDSize e \<le> ucast sz" using assms(2) by (simp add: word_le_nat_alt unat_ucast_32_64)
  have u: "unat ((ucast sz :: u64) - frameDSize e) = unat sz - unat (frameDSize e)"
    using le by (simp add: unat_sub unat_ucast_32_64)
  have "unat sz < 2 ^ 32" using unsigned_less [of sz, where ?'a = nat] by simp
  then have small: "unat sz - unat (frameDSize e) < 4294967296" by simp
  then have "unat ((ucast sz :: u64) - frameDSize e) < 2 ^ 63" using u by simp
  then have "sint ((ucast sz :: u64) - frameDSize e) = int (unat ((ucast sz :: u64) - frameDSize e))"
    by (rule sint_small)
  then have r: "sint ((ucast sz :: u64) - frameDSize e) = int (unat sz - unat (frameDSize e))"
    using u by (simp only:)
  show ?thesis using assms(1) small
    by (simp add: remainingFrameSize_def MAX_FRAME_SIZE_def Let_def r)
qed

lemma complete_uncompressed:
  assumes "FramePolicy (options e) = Some (UncompressedFrameSize sz)"
  shows "isFrameComplete e = (unat sz \<le> unat (frameDSize e))"
proof -
  have "unat sz < 2 ^ 32" using unsigned_less [of sz, where ?'a = nat] by simp
  then have "\<not> (ucast sz :: u64) > 4294967296"
    by (simp add: word_less_nat_alt unat_ucast_32_64)
  then show ?thesis using assms
    by (simp add: isFrameComplete_def Let_def word_le_nat_alt unat_ucast_32_64)
qed

lemma LogFrame_eq:
  assumes "length (entries st) = Suc i" and "i < 2 ^ 27"
  shows "LogFrame st c d = Inr (st\<lparr>entries := entries st @
          [\<lparr>CompressedOffset = CompressedOffset (last (entries st)) + ucast c,
            DecompressedOffset = DecompressedOffset (last (entries st)) + ucast d\<rparr>]\<rparr>)"
proof -
  have "NumFrames st = word_of_nat i" using assms by (simp add: NumFrames_def)
  moreover have "unat (word_of_nat i :: u32) = i"
    using assms(2) by (simp add: unat_of_nat)
  ultimately have "\<not> NumFrames st \<ge> SEEKABLE_MAX_FRAMES"
    using assms(2) by (simp add: SEEKABLE_MAX_FRAMES_def word_le_nat_alt)
  then show ?thesis by (simp add: LogFrame_def Let_def)
qed

lemma EndFrame_logs:
  assumes wr_ok: "\<And>w bs. snd (wr w bs) = None"
    and nz: "frameDSize e \<noteq> 0"
    and len: "length (entries (seekTable e)) = Suc k"
    and cap: "k < 2 ^ 27"
  shows "\<exists>e'. EndFrame wr e = (e', None) \<and> options e' = options e \<and> encoder e' = encoder e
     \<and> frameDSize e' = 0
     \<and> entries (seekTable e') = entries (seekTable e) @
          [\<lparr>CompressedOffset = CompressedOffset (last (entries (seekTable e))) + ucast (ucast (frameCSize e) :: u32),
            DecompressedOffset = DecompressedOffset (last (entries (seekTable e))) + ucast (ucast (frameDSize e) :: u32)\<rparr>]"
proof -
  obtain w' r where w: "wr (writer e) (frameBuffer e) = (w', r)" by (cases "wr (writer e) (frameBuffer e)")
  with wr_ok [of "writer e" "frameBuffer e"] have w': "wr (writer e) (frameBuffer e) = (w', None)" by simp
  show ?thesis
    using nz w' LogFrame_eq [OF len cap]
    by (simp add: EndFrame_def Let_def)
qed

lemma WriteWithPrefix_loop_uncompressed:
  fixes wr :: "'w \<Rightarrow> byte list \<Rightarrow> 'w \<times> error option" and e :: "'w Encoder"
  assumes wr_ok: "\<And>w bs. snd (wr w bs) = None"
    and s: "0 < unat sz"
  shows "FramePolicy (options e) = Some (UncompressedFrameSize sz) \<Longrightarrow>
     unat (frameDSize e) < unat sz \<Longrightarrow>
     length (entries (seekTable e)) = Suc k \<Longrightarrow>
     k + (unat (frameDSize e) + length p) div unat sz \<le> 2 ^ 27 \<Longrightarrow>
     \<exists>e'. WriteWithPrefix_loop wr e p prefix tw = Some (e', tw + length p, None)
        \<and> options e' = options e \<and> encoder e' = encoder e
        \<and> unat (frameDSize e') = (unat (frameDSize e) + length p) mod unat sz
        \<and> length (entries (seekTable e')) = Suc k + (unat (frameDSize e) + length p) div unat sz
        \<and> take (Suc k) (entries (seekTable e')) = entries (seekTable e)
        \<and> (\<forall>j. Suc k \<le> j \<and> j < length (entries (seekTable e')) \<longrightarrow>
             DecompressedOffset (entries (seekTable e') ! j)
               = DecompressedOffset (entries (seekTable e') ! (j - 1)) + ucast sz)"
proof (induction "length p" arbitrary: e p tw k rule: less_induct)
  case less
  note pol = less.prems(1) and dlt = less.prems(2) and len = less.prems(3) and cap = less.prems(4)
  define s where "s = unat sz"
  define d where "d = unat (frameDSize e)"
  have s32: "s < 4294967296" using unsigned_less [of sz, where ?'a = nat] by (simp add: s_def)
  have spos: "0 < s" using s by (simp add: s_def)
  have dlt': "d < s" using dlt by (simp add: s_def d_def)
  show ?case
  proof (cases "p = []")
    case True
    then have "WriteWithPrefix_loop wr e p prefix tw = Some (e, tw, None)"
      by (subst WriteWithPrefix_loop.simps) simp
    then show ?thesis using True len dlt by auto
  next
    case False
    define t where "t = min (length p) (s - d)"
    have tpos: "0 < t" using False dlt' by (simp add: t_def)
    have tle: "t \<le> length p" by (simp add: t_def)
    have rem: "remainingFrameSize e = int (s - d)"
      using remaining_uncompressed [OF pol] dlt by (simp add: s_def d_def)
    have rem0: "remainingFrameSize e \<noteq> 0" using rem dlt' by simp
    have toW: "(if remainingFrameSize e < int (length p) then remainingFrameSize e else int (length p)) = int t"
      unfolding rem by (simp add: t_def min_def)
    define compressed where "compressed =
      (if frameDSize e = 0 \<and> prefix \<noteq> None then encoder e (the prefix @ take t p) else encoder e (take t p))"
    define e2 where "e2 = e\<lparr>frameBuffer := frameBuffer e @ compressed,
                            frameCSize := frameCSize e + word_of_nat (length compressed),
                            frameDSize := frameDSize e + word_of_nat t\<rparr>"
    have d2: "unat (frameDSize e2) = d + t"
    proof -
      have "d + t < 2 ^ 64" using dlt' s32 by (simp add: t_def)
      then show ?thesis unfolding e2_def d_def by (simp add: unat_add_of_nat)
    qed
    have pol2: "FramePolicy (options e2) = Some (UncompressedFrameSize sz)"
      using pol by (simp add: e2_def)
    have comp: "isFrameComplete e2 = (s \<le> d + t)"
      using complete_uncompressed [OF pol2] d2 by (simp add: s_def)
    have step: "WriteWithPrefix_loop wr e p prefix tw =
        (if isFrameComplete e2 then
           case EndFrame wr e2 of
             (e3, Some err) \<Rightarrow> Some (e3, tw + t, Some err)
           | (e3, None) \<Rightarrow> WriteWithPrefix_loop wr e3 (drop t p) prefix (tw + t)
         else WriteWithPrefix_loop wr e2 (drop t p) prefix (tw + t))"
      apply (subst WriteWithPrefix_loop.simps)
      using False apply (simp add: rem0 toW Let_def compressed_def e2_def)
      done
    have shorter: "length (drop t p) < length p" using tpos False by simp
    show ?thesis
    proof (cases "s \<le> d + t")
      case False
      then have tl: "t = length p" by (simp add: t_def min_def split: if_splits)
      have st: "WriteWithPrefix_loop wr e p prefix tw = WriteWithPrefix_loop wr e2 (drop t p) prefix (tw + t)"
        using step comp False by simp
      have a1: "unat (frameDSize e2) < unat sz" using d2 False by (simp add: s_def)
      have a2: "length (entries (seekTable e2)) = Suc k" using len by (simp add: e2_def)
      have a3: "k + (unat (frameDSize e2) + length (drop t p)) div unat sz \<le> 2 ^ 27"
        using cap d2 tl by (simp add: d_def)
      from less.hyps [OF shorter pol2 a1 a2 a3, of "tw + t"]
      obtain e' where e': "WriteWithPrefix_loop wr e2 (drop t p) prefix (tw + t) = Some (e', tw + t + length (drop t p), None)"
        "options e' = options e2" "encoder e' = encoder e2"
        "unat (frameDSize e') = (unat (frameDSize e2) + length (drop t p)) mod unat sz"
        "length (entries (seekTable e')) = Suc k + (unat (frameDSize e2) + length (drop t p)) div unat sz"
        "take (Suc k) (entries (seekTable e')) = entries (seekTable e2)"
        "\<forall>j. Suc k \<le> j \<and> j < length (entries (seekTable e')) \<longrightarrow>
             DecompressedOffset (entries (seekTable e') ! j)
               = DecompressedOffset (entries (seekTable e') ! (j - 1)) + ucast sz"
        by blast
      have "unat (frameDSize e2) + length (drop t p) = unat (frameDSize e) + length p"
        using d2 tl by (simp add: d_def)
      then show ?thesis using e' st tl by (simp add: e2_def)
    next
      case True
      then have ts: "d + t = s" using dlt' by (simp add: t_def min_def split: if_splits)
      have k27: "k < 2 ^ 27"
      proof -
        have "s \<le> d + length p" using ts tle by simp
        then have "0 < (d + length p) div s" using spos by (simp add: div_greater_zero_iff)
        then show ?thesis using cap by (simp add: s_def d_def)
      qed
      have nz: "frameDSize e2 \<noteq> 0" using d2 ts spos by (metis less_numeral_extra(3) unat_0)
      have len2: "length (entries (seekTable e2)) = Suc k" using len by (simp add: e2_def)
      from EndFrame_logs [where wr = wr, OF wr_ok nz len2 k27]
      obtain e3 where e3: "EndFrame wr e2 = (e3, None)" "options e3 = options e2" "encoder e3 = encoder e2"
        "frameDSize e3 = 0"
        "entries (seekTable e3) = entries (seekTable e2) @
          [\<lparr>CompressedOffset = CompressedOffset (last (entries (seekTable e2))) + ucast (ucast (frameCSize e2) :: u32),
            DecompressedOffset = DecompressedOffset (last (entries (seekTable e2))) + ucast (ucast (frameDSize e2) :: u32)\<rparr>]"
        by blast
      have cast: "(ucast (frameDSize e2) :: u32) = sz"
        using d2 ts by (intro ucast_64_32) (simp add: s_def)
      have st: "WriteWithPrefix_loop wr e p prefix tw = WriteWithPrefix_loop wr e3 (drop t p) prefix (tw + t)"
        using step comp True e3(1) by simp
      have pol3: "FramePolicy (options e3) = Some (UncompressedFrameSize sz)" using pol2 e3(2) by simp
      have a1: "unat (frameDSize e3) < unat sz" using e3(4) s by simp
      have a2: "length (entries (seekTable e3)) = Suc (Suc k)" using e3(5) len2 by simp
      have dv: "(d + length p) div s = Suc ((length p - t) div s)"
      proof -
        have "d + length p = s + (length p - t)" using ts tle by simp
        moreover have "s \<noteq> 0" using spos by simp
        ultimately show ?thesis by (metis div_add_self1 Suc_eq_plus1)
      qed
      have md: "(d + length p) mod s = (length p - t) mod s"
      proof -
        have "d + length p = s + (length p - t)" using ts tle by simp
        then show ?thesis by simp
      qed
      have a3: "Suc k + (unat (frameDSize e3) + length (drop t p)) div unat sz \<le> 2 ^ 27"
        using cap dv e3(4) by (simp add: s_def d_def)
      from less.hyps [OF shorter pol3 a1 a2 a3, of "tw + t"]
      obtain e' where e': "WriteWithPrefix_loop wr e3 (drop t p) prefix (tw + t) = Some (e', tw + t + length (drop t p), None)"
        "options e' = options e3" "encoder e' = encoder e3"
        "unat (frameDSize e') = (unat (frameDSize e3) + length (drop t p)) mod unat sz"
        "length (entries (seekTable e')) = Suc (Suc k) + (unat (frameDSize e3) + length (drop t p)) div unat sz"
        "take (Suc (Suc k)) (entries (seekTable e')) = entries (seekTable e3)"
        "\<forall>j. Suc (Suc k) \<le> j \<and> j < length (entries (seekTable e')) \<longrightarrow>
             DecompressedOffset (entries (seekTable e') ! j)
               = DecompressedOffset (entries (seekTable e') ! (j - 1)) + ucast sz"
        by blast
      let ?es = "entries (seekTable e)" and ?es' = "entries (seekTable e')"
      have es3: "entries (seekTable e3) = ?es @
          [\<lparr>CompressedOffset = CompressedOffset (last ?es) + ucast (ucast (frameCSize e2) :: u32),
            DecompressedOffset = DecompressedOffset (last ?es) + ucast sz\<rparr>]"
        using e3(5) cast by (simp add: e2_def)
      have c1: "WriteWithPrefix_loop wr e p prefix tw = Some (e', tw + length p, None)"
        using st e'(1) tle by simp
      have c2: "options e' = options e" "encoder e' = encoder e"
        using e'(2,3) e3(2,3) by (simp_all add: e2_def)
      have c3: "unat (frameDSize e') = (unat (frameDSize e) + length p) mod unat sz"
        using e'(4) e3(4) md by (simp add: s_def d_def)
      have c4: "length ?es' = Suc k + (unat (frameDSize e) + length p) div unat sz"
        using e'(5) e3(4) dv by (simp add: s_def d_def)
      have tk: "take (Suc (Suc k)) ?es' = ?es @ [\<lparr>CompressedOffset = CompressedOffset (last ?es) + ucast (ucast (frameCSize e2) :: u32),
            DecompressedOffset = DecompressedOffset (last ?es) + ucast sz\<rparr>]"
        using e'(6) es3 by simp
      have c5: "take (Suc k) ?es' = ?es"
      proof -
        have "take (Suc k) ?es' = take (Suc k) (take (Suc (Suc k)) ?es')" by (simp add: min_def)
        also have "\<dots> = ?es" using tk len by simp
        finally show ?thesis .
      qed
      have c6: "DecompressedOffset (?es' ! j) = DecompressedOffset (?es' ! (j - 1)) + ucast sz"
        if j: "Suc k \<le> j \<and> j < length ?es'" for j
      proof (cases "j = Suc k")
        case False
        then show ?thesis using e'(7) j by simp
      next
        case True
        have lk: "Suc (Suc k) \<le> length ?es'" using j True by simp
        have "?es' ! Suc k = take (Suc (Suc k)) ?es' ! Suc k" by simp
        also have "\<dots> = \<lparr>CompressedOffset = CompressedOffset (last ?es) + ucast (ucast (frameCSize e2) :: u32),
            DecompressedOffset = DecompressedOffset (last ?es) + ucast sz\<rparr>"
          using tk len by (simp add: nth_append)
        finally have n1: "DecompressedOffset (?es' ! Suc k) = DecompressedOffset (last ?es) + ucast sz" by simp
        have "?es' ! k = take (Suc k) ?es' ! k" by simp
        also have "\<dots> = ?es ! k" using c5 by simp
        also have "\<dots> = last ?es"
        proof -
          have "?es \<noteq> []" using len by auto
          from last_conv_nth [OF this] show ?thesis using len by simp
        qed
        finally have n0: "?es' ! k = last ?es" .
        show ?thesis using True n1 n0 by simp
      qed
      show ?thesis using c1 c2 c3 c4 c5 c6 by blast
    qed
  qed
qed

lemma Finish_spec:
  assumes wr_ok: "\<And>w bs. snd (wr w bs) = None" and d0: "frameDSize e = 0"
  shows "\<exists>w'. Finish wr e = Some (e\<lparr>writer := w'\<rparr>, None)"
proof -
  have "EndFrame wr e = (e, None)" using d0 by (simp add: EndFrame_def)
  moreover from Finish_loop_spec [where wr = wr and buf = "replicate 4096 0"
      and s = "NewSerializer (seekTable e) FormatFoot" and w = "writer e",
      OF wr_ok _ NewSerializer_start]
  obtain w' where "Finish_loop wr (writer e) (NewSerializer (seekTable e) FormatFoot) (replicate 4096 0)
      = Some (w', None)" by auto
  ultimately have "Finish wr e = Some (e\<lparr>writer := w'\<rparr>, None)"
    by (simp add: Finish_def FinishWithFormat_def)
  then show ?thesis by blast
qed

lemma unat_of_nat_32: "n < 2 ^ 32 \<Longrightarrow> unat (word_of_nat n :: u32) = n"
  by (simp add: unat_of_nat)

text \<open>
  With \<open>UncompressedFrameSize{0}\<close> the loop of \<open>WriteWithPrefix\<close> takes 0 bytes in every
  round, \<open>EndFrame\<close> does nothing on the empty frame, and the loop never ends.
\<close>

lemma WriteWithPrefix_loop_stuck:
  assumes ret: "WriteWithPrefix_loop wr e p prefix tw = Some y"
  shows "\<not> stuck e p"
proof (rule WriteWithPrefix_loop.raw_induct
    [where P = "\<lambda>wr e p prefix tw y. \<not> stuck e p" and wr = wr and e = e and p = p
       and prefix = prefix and totalWritten = tw and y = y], goal_cases)
  case (1 loop wr e p prefix tw y)
  show ?case
  proof
    assume st: "stuck e p"
    then have a: "FramePolicy (options e) = Some (UncompressedFrameSize 0)" "frameDSize e = 0" "p \<noteq> []"
      by (simp_all add: stuck_def)
    have rem: "remainingFrameSize e = 0"
      using a by (simp add: remainingFrameSize_def Let_def MAX_FRAME_SIZE_def)
    have ef: "EndFrame wr e = (e, None)" using a by (simp add: EndFrame_def)
    define compressed where "compressed =
      (if prefix \<noteq> None then encoder e (the prefix @ []) else encoder e [])"
    define e2 where "e2 = e\<lparr>frameBuffer := frameBuffer e @ compressed,
                            frameCSize := frameCSize e + word_of_nat (length compressed),
                            frameDSize := 0\<rparr>"
    have pol2: "FramePolicy (options e2) = Some (UncompressedFrameSize 0)" "frameDSize e2 = 0"
      using a by (simp_all add: e2_def)
    have c2: "isFrameComplete e2" using pol2 by (simp add: isFrameComplete_def Let_def)
    have ef2: "EndFrame wr e2 = (e2, None)" using pol2 by (simp add: EndFrame_def)
    have "loop wr e2 p prefix tw = Some y"
      using 1(2) a rem ef c2 [unfolded e2_def compressed_def] ef2 [unfolded e2_def compressed_def]
      by (simp add: Let_def e2_def compressed_def)
    then have "\<not> stuck e2 p" by (rule 1(1))
    then show False using pol2 a(3) by (simp add: stuck_def)
  qed
next
  case 2
  show ?case by (rule ret)
qed

lemma WriteWithPrefix_loop_size0:
  assumes "FramePolicy (options e) = Some (UncompressedFrameSize 0)" and "frameDSize e = 0" and "p \<noteq> []"
  shows "WriteWithPrefix_loop wr e p prefix tw = None"
proof (cases "WriteWithPrefix_loop wr e p prefix tw")
  case None
  then show ?thesis .
next
  case (Some y)
  from WriteWithPrefix_loop_stuck [OF Some] assms show ?thesis by (simp add: stuck_def)
qed

text \<open>
  C7, as stated for every \<open>size\<close>, fails at \<open>size = 0\<close>: the fresh encoder's frame has
  reached \<open>min(0, 2^32) = 0\<close> bytes and \<open>isFrameComplete\<close> holds, yet \<open>EndFrame\<close> emits
  no frame boundary for the empty frame (the table stays at 0 frames), and \<open>Write\<close> of
  one byte never returns.
\<close>

theorem uncompressed_size_zero_counterexample:
  "\<forall>enc. \<exists>e0.
      NewEncoder (\<lambda>opts. Inr enc) [] (Some zero_size_options) = Inr e0
    \<and> isFrameComplete e0
    \<and> EndFrame buffer_write e0 = (e0, None)
    \<and> NumFrames (seekTable e0) = 0
    \<and> Write buffer_write e0 [0] = None"
proof
  fix enc :: "byte list \<Rightarrow> byte list"
  define e0 :: "byte list Encoder" where
    "e0 = \<lparr>writer = [], encoder = enc, options = zero_size_options, seekTable = NewSeekTable,
           frameBuffer = [], frameCSize = 0, frameDSize = 0, writtenTotal = 0, currentFrameNum = 0\<rparr>"
  have new: "NewEncoder (\<lambda>opts. Inr enc) [] (Some zero_size_options) = Inr e0"
    by (simp add: NewEncoder_def e0_def)
  have pol: "FramePolicy (options e0) = Some (UncompressedFrameSize 0)"
    by (simp add: e0_def zero_size_options_def)
  have d0: "frameDSize e0 = 0" by (simp add: e0_def)
  have c: "isFrameComplete e0" using pol d0 by (simp add: isFrameComplete_def Let_def)
  have ef: "EndFrame buffer_write e0 = (e0, None)" using d0 by (simp add: EndFrame_def)
  have nf: "NumFrames (seekTable e0) = 0" by (simp add: e0_def NewSeekTable_def NumFrames_def)
  have w: "Write buffer_write e0 [0] = None"
    using WriteWithPrefix_loop_size0 [OF pol d0, of "[0]" buffer_write None 0]
    by (simp add: Write_def WriteWithPrefix_def)
  show "\<exists>e0. NewEncoder (\<lambda>opts. Inr enc) [] (Some zero_size_options) = Inr e0
    \<and> isFrameComplete e0
    \<and> EndFrame buffer_write e0 = (e0, None)
    \<and> NumFrames (seekTable e0) = 0
    \<and> Write buffer_write e0 [0] = None"
    using new c ef nf w by (intro exI [of _ e0]) simp
qed

text \<open>
  C7, amended to \<open>size \<ge> 1\<close>: under \<open>UncompressedFrameSize{size}\<close> a frame is complete
  exactly when its decompressed bytes reach \<open>min(size, 2^32)\<close>, and a write (the writer
  not failing, the table not full) closes a frame each time that happens: starting with
  \<open>d < size\<close> bytes in the open frame, writing \<open>p\<close> accepts all of \<open>p\<close>, logs
  \<open>(d + len(p)) div size\<close> frames, each of decompressed size \<open>size\<close>, and leaves
  \<open>(d + len(p)) mod size\<close> bytes in the open frame, which is not complete. Scenario B
  (300 bytes, \<open>size = 100\<close>, then \<open>Finish\<close>: 3 frames of 100 bytes) is the instance
  proved next.
\<close>

theorem uncompressed_policy_frames:
  fixes wr :: "'w \<Rightarrow> byte list \<Rightarrow> 'w \<times> error option" and e :: "'w Encoder"
  assumes wr_ok: "\<And>w bs. snd (wr w bs) = None"
    and pol: "FramePolicy (options e) = Some (UncompressedFrameSize sz)"
    and s: "1 \<le> unat sz"
    and len: "length (entries (seekTable e)) = Suc k"
    and cap: "k + (unat (frameDSize e) + length p) div unat sz \<le> 2 ^ 27"
  shows "isFrameComplete e = (min (unat sz) (2 ^ 32) \<le> unat (frameDSize e))
    \<and> (unat (frameDSize e) < unat sz \<longrightarrow>
        (\<exists>e'. WriteWithPrefix wr e p prefix = Some (e', length p, None)
          \<and> NumFrames (seekTable e') = word_of_nat (k + (unat (frameDSize e) + length p) div unat sz)
          \<and> (\<forall>i. k \<le> i \<and> i < k + (unat (frameDSize e) + length p) div unat sz \<longrightarrow>
                FrameSizeDecomp (seekTable e') (word_of_nat i) = Inr (ucast sz))
          \<and> unat (frameDSize e') = (unat (frameDSize e) + length p) mod unat sz
          \<and> \<not> isFrameComplete e'))"
proof -
  have s32: "unat sz < 2 ^ 32" using unsigned_less [of sz, where ?'a = nat] by simp
  have s0: "0 < unat sz" using s by simp
  have comp: "isFrameComplete x = (min (unat sz) (2 ^ 32) \<le> unat (frameDSize x))"
    if "FramePolicy (options x) = Some (UncompressedFrameSize sz)" for x :: "'w Encoder"
    using complete_uncompressed [OF that] s32 by (simp add: min_def)
  define m where "m = (unat (frameDSize e) + length p) div unat sz"
  have main: "\<exists>e'. WriteWithPrefix wr e p prefix = Some (e', length p, None)
          \<and> NumFrames (seekTable e') = word_of_nat (k + m)
          \<and> (\<forall>i. k \<le> i \<and> i < k + m \<longrightarrow>
                FrameSizeDecomp (seekTable e') (word_of_nat i) = Inr (ucast sz))
          \<and> unat (frameDSize e') = (unat (frameDSize e) + length p) mod unat sz
          \<and> \<not> isFrameComplete e'"
    if d: "unat (frameDSize e) < unat sz"
  proof -
    from WriteWithPrefix_loop_uncompressed [where wr = wr, OF wr_ok s0 pol d len cap, of prefix 0]
    obtain e' where e': "WriteWithPrefix_loop wr e p prefix 0 = Some (e', 0 + length p, None)"
      "options e' = options e"
      "unat (frameDSize e') = (unat (frameDSize e) + length p) mod unat sz"
      "length (entries (seekTable e')) = Suc k + m"
      "\<forall>j. Suc k \<le> j \<and> j < length (entries (seekTable e')) \<longrightarrow>
         DecompressedOffset (entries (seekTable e') ! j)
           = DecompressedOffset (entries (seekTable e') ! (j - 1)) + ucast sz"
      unfolding m_def by blast
    have km: "k + m \<le> 2 ^ 27" using cap by (simp add: m_def)
    have nf: "NumFrames (seekTable e') = word_of_nat (k + m)"
      using e'(4) by (simp add: NumFrames_def)
    have sizes: "FrameSizeDecomp (seekTable e') (word_of_nat i) = Inr (ucast sz)"
      if i: "k \<le> i \<and> i < k + m" for i
    proof -
      have i32: "i < 2 ^ 32" "k + m < 2 ^ 32" using i km by simp_all
      have ui: "unat (word_of_nat i :: u32) = i" using i32(1) by (rule unat_of_nat_32)
      have "unat (word_of_nat (k + m) :: u32) = k + m" using i32(2) by (rule unat_of_nat_32)
      then have lt: "\<not> (word_of_nat i :: u32) \<ge> NumFrames (seekTable e')"
        using nf ui i by (simp add: word_le_nat_alt)
      have "DecompressedOffset (entries (seekTable e') ! (i + 1))
          = DecompressedOffset (entries (seekTable e') ! i) + ucast sz"
        using e'(5) [rule_format, of "i + 1"] e'(4) i by simp
      then show ?thesis using lt ui by (simp add: FrameSizeDecomp_def)
    qed
    have "unat (frameDSize e') < unat sz" using e'(3) s0 by simp
    then have "\<not> isFrameComplete e'"
      using comp [of e'] pol e'(2) s32 by (simp add: min_def)
    then show ?thesis using e'(1,3) nf sizes
      by (auto simp add: WriteWithPrefix_def)
  qed
  show ?thesis using comp [OF pol] main by (simp add: m_def)
qed

theorem uncompressed_policy_frames_witness:
  "\<forall>enc. \<exists>e0 e1 e2.
      NewEncoder (\<lambda>opts. Inr enc) [] (Some scenario_options) = Inr e0
    \<and> Write buffer_write e0 scenario_data = Some (e1, 300, None)
    \<and> Finish buffer_write e1 = Some (e2, None)
    \<and> NumFrames (seekTable e2) = 3
    \<and> FrameSizeDecomp (seekTable e2) 0 = Inr 100
    \<and> FrameSizeDecomp (seekTable e2) 1 = Inr 100
    \<and> FrameSizeDecomp (seekTable e2) 2 = Inr 100"
proof
  fix enc :: "byte list \<Rightarrow> byte list"
  define e0 :: "byte list Encoder" where
    "e0 = \<lparr>writer = [], encoder = enc, options = scenario_options, seekTable = NewSeekTable,
           frameBuffer = [], frameCSize = 0, frameDSize = 0, writtenTotal = 0, currentFrameNum = 0\<rparr>"
  have new: "NewEncoder (\<lambda>opts. Inr enc) [] (Some scenario_options) = Inr e0"
    by (simp add: NewEncoder_def e0_def)
  have wr_ok: "\<And>w bs. snd (buffer_write w bs) = None" by (simp add: buffer_write_def)
  have pol: "FramePolicy (options e0) = Some (UncompressedFrameSize 100)"
    by (simp add: e0_def scenario_options_def)
  have s: "1 \<le> unat (100 :: u32)" by simp
  have d: "unat (frameDSize e0) < unat (100 :: u32)" by (simp add: e0_def)
  have len: "length (entries (seekTable e0)) = Suc 0" by (simp add: e0_def NewSeekTable_def)
  have l300: "length scenario_data = 300" by (simp add: scenario_data_def)
  have cap: "0 + (unat (frameDSize e0) + length scenario_data) div unat (100 :: u32) \<le> 2 ^ 27"
    by (simp add: e0_def l300)
  from uncompressed_policy_frames [where wr = buffer_write, OF wr_ok pol s len cap, of None]
  have "unat (frameDSize e0) < unat (100 :: u32) \<longrightarrow>
       (\<exists>e'. WriteWithPrefix buffer_write e0 scenario_data None = Some (e', length scenario_data, None)
          \<and> NumFrames (seekTable e') = word_of_nat (0 + (unat (frameDSize e0) + length scenario_data) div unat (100 :: u32))
          \<and> (\<forall>i. 0 \<le> i \<and> i < 0 + (unat (frameDSize e0) + length scenario_data) div unat (100 :: u32) \<longrightarrow>
                FrameSizeDecomp (seekTable e') (word_of_nat i) = Inr (ucast (100 :: u32)))
          \<and> unat (frameDSize e') = (unat (frameDSize e0) + length scenario_data) mod unat (100 :: u32)
          \<and> \<not> isFrameComplete e')"
    by (rule conjunct2)
  from this [THEN mp, OF d]
  obtain e1 where e1c: "WriteWithPrefix buffer_write e0 scenario_data None = Some (e1, length scenario_data, None)
          \<and> NumFrames (seekTable e1) = word_of_nat (0 + (unat (frameDSize e0) + length scenario_data) div unat (100 :: u32))
          \<and> (\<forall>i. 0 \<le> i \<and> i < 0 + (unat (frameDSize e0) + length scenario_data) div unat (100 :: u32) \<longrightarrow>
                FrameSizeDecomp (seekTable e1) (word_of_nat i) = Inr (ucast (100 :: u32)))
          \<and> unat (frameDSize e1) = (unat (frameDSize e0) + length scenario_data) mod unat (100 :: u32)
          \<and> \<not> isFrameComplete e1" ..
  note e1 = e1c [THEN conjunct1] e1c [THEN conjunct2, THEN conjunct1]
    e1c [THEN conjunct2, THEN conjunct2, THEN conjunct1]
    e1c [THEN conjunct2, THEN conjunct2, THEN conjunct2, THEN conjunct1]
  have w: "Write buffer_write e0 scenario_data = Some (e1, 300, None)"
    using e1(1) l300 by (simp add: Write_def)
  have n3: "NumFrames (seekTable e1) = 3" using e1(2) by (simp add: e0_def l300)
  have m3: "(unat (frameDSize e0) + length scenario_data) div unat (100 :: u32) = 3"
    by (simp add: e0_def l300)
  have f0: "FrameSizeDecomp (seekTable e1) 0 = Inr 100"
    using e1(3) [rule_format, of 0] m3 by simp
  have f1: "FrameSizeDecomp (seekTable e1) 1 = Inr 100"
    using e1(3) [rule_format, of 1] m3 by simp
  have f2: "FrameSizeDecomp (seekTable e1) 2 = Inr 100"
    using e1(3) [rule_format, of 2] m3 by simp
  have "unat (frameDSize e1) = 0" using e1(4) by (simp add: e0_def l300)
  then have d1: "frameDSize e1 = 0" by (simp add: unat_eq_0)
  from Finish_spec [where wr = buffer_write, OF wr_ok d1]
  obtain w' where fin: "Finish buffer_write e1 = Some (e1\<lparr>writer := w'\<rparr>, None)" by blast
  show "\<exists>e0 e1 e2.
      NewEncoder (\<lambda>opts. Inr enc) [] (Some scenario_options) = Inr e0
    \<and> Write buffer_write e0 scenario_data = Some (e1, 300, None)
    \<and> Finish buffer_write e1 = Some (e2, None)
    \<and> NumFrames (seekTable e2) = 3
    \<and> FrameSizeDecomp (seekTable e2) 0 = Inr 100
    \<and> FrameSizeDecomp (seekTable e2) 1 = Inr 100
    \<and> FrameSizeDecomp (seekTable e2) 2 = Inr 100"
    using new w fin n3 f0 f1 f2
    by (intro exI [of _ e0] exI [of _ e1] exI [of _ "e1\<lparr>writer := w'\<rparr>"]) simp
qed

lemma length_four_gib: "length four_gib = 4294967296"
  by (simp only: four_gib_def length_replicate)

lemma length_length_codec [simp]: "length (length_codec bs) = 4"
  by (simp add: length_codec_def)

text \<open>
  C2 at a frame of \<open>2^32\<close> bytes: under \<open>CompressedFrameSize{2^32 - 1}\<close> a write of
  \<open>2^32\<close> bytes is accepted whole into one frame (the clamp is \<open>2^32\<close>, one more than a
  \<open>uint32\<close> holds), \<open>EndFrame\<close> closes it with \<open>frameDSize = 2^32\<close>, and the table
  records a decompressed size of 0 for it.
\<close>

theorem Write_four_gib_frame:
  "\<exists>e0 e1. NewEncoder (\<lambda>opts. Inr length_codec) [] (Some compressed_options) = Inr e0
     \<and> Write buffer_write e0 four_gib = Some (e1, 4294967296, None)
     \<and> NumFrames (seekTable e1) = 1
     \<and> FrameSizeDecomp (seekTable e1) 0 = Inr 0"
proof -
  define e0 :: "byte list Encoder" where
    "e0 = \<lparr>writer = [], encoder = length_codec, options = compressed_options, seekTable = NewSeekTable,
           frameBuffer = [], frameCSize = 0, frameDSize = 0, writtenTotal = 0, currentFrameNum = 0\<rparr>"
  have new: "NewEncoder (\<lambda>opts. Inr length_codec) [] (Some compressed_options) = Inr e0"
    by (simp add: NewEncoder_def e0_def)
  define e1 :: "byte list Encoder" where
    "e1 = e0\<lparr>frameBuffer := length_codec (take 4294967295 four_gib), frameCSize := 4,
              frameDSize := 4294967295\<rparr>"
  define e2 :: "byte list Encoder" where
    "e2 = e1\<lparr>frameBuffer := frameBuffer e1 @ length_codec (take 1 (drop 4294967295 four_gib)),
              frameCSize := 8, frameDSize := 4294967296\<rparr>"
  define e3 :: "byte list Encoder" where
    "e3 = e2\<lparr>writer := frameBuffer e2,
              seekTable := \<lparr>entries = [\<lparr>CompressedOffset = 0, DecompressedOffset = 0\<rparr>,
                                       \<lparr>CompressedOffset = 8, DecompressedOffset = 0\<rparr>]\<rparr>,
              writtenTotal := 8, currentFrameNum := 1, frameBuffer := [], frameCSize := 0,
              frameDSize := 0\<rparr>"
  have r0: "remainingFrameSize e0 = 4294967295"
    by (simp add: remainingFrameSize_def e0_def compressed_options_def Let_def)
  have c1: "\<not> isFrameComplete e1"
    by (simp add: isFrameComplete_def e1_def e0_def compressed_options_def)
  have f0: "frameDSize e0 = 0" "frameCSize e0 = 0" "frameBuffer e0 = []" "encoder e0 = length_codec"
    by (simp_all add: e0_def)
  have step1: "WriteWithPrefix_loop buffer_write e0 four_gib None 0
      = WriteWithPrefix_loop buffer_write e1 (drop 4294967295 four_gib) None 4294967295"
    apply (subst WriteWithPrefix_loop.simps)
    using c1 [unfolded e1_def] apply (simp add: r0 length_four_gib Let_def e1_def f0)
    done
  have l1: "length (drop 4294967295 four_gib) = 1" by (simp add: length_four_gib)
  have r1: "remainingFrameSize e1 = 1"
    by (simp add: remainingFrameSize_def e1_def e0_def compressed_options_def Let_def)
  have c2: "isFrameComplete e2"
    by (simp add: isFrameComplete_def e2_def e1_def e0_def compressed_options_def)
  have end2: "EndFrame buffer_write e2 = (e3, None)"
    by (simp add: EndFrame_def buffer_write_def LogFrame_def NumFrames_def NewSeekTable_def
        SEEKABLE_MAX_FRAMES_def Let_def e3_def e2_def e1_def e0_def)
  have f1: "frameDSize e1 = 4294967295" "frameCSize e1 = 4" "encoder e1 = length_codec"
    by (simp_all add: e1_def e0_def)
  have step2: "WriteWithPrefix_loop buffer_write e1 (drop 4294967295 four_gib) None 4294967295
      = WriteWithPrefix_loop buffer_write e3 [] None 4294967296"
    apply (subst WriteWithPrefix_loop.simps)
    using c2 [unfolded e2_def] end2 [unfolded e2_def] apply (simp add: r1 length_four_gib Let_def e2_def f1)
    done
  have step3: "WriteWithPrefix_loop buffer_write e3 [] None 4294967296 = Some (e3, 4294967296, None)"
    by (subst WriteWithPrefix_loop.simps) simp
  have w: "Write buffer_write e0 four_gib = Some (e3, 4294967296, None)"
    using step1 step2 step3 by (simp add: Write_def WriteWithPrefix_def)
  have n: "NumFrames (seekTable e3) = 1" by (simp add: NumFrames_def e3_def)
  have f: "FrameSizeDecomp (seekTable e3) 0 = Inr 0"
    by (simp add: FrameSizeDecomp_def NumFrames_def e3_def)
  show ?thesis using new w n f by blast
qed

text \<open>
  C1 at the table of one frame in Head format: the bytes that the serializer emits
  are rejected by \<open>ParseSeekTable\<close> with \<open>InvalidMagic\<close>, because it reads the
  integrity footer from the last 9 bytes, which in Head format are the zero padding of
  the last frame slot. The same table in Foot format parses back to itself.
\<close>

theorem Head_format_does_not_parse:
  "LogFrame NewSeekTable 1000 2000 = Inr one_frame_table
   \<and> write_chunks (NewSerializer one_frame_table FormatHead) (replicate 4096 0) []
       = Some (table_image (NewSerializer one_frame_table FormatHead))
   \<and> ParseSeekTable (table_image (NewSerializer one_frame_table FormatHead)) = Inl ErrInvalidMagic
   \<and> ParseSeekTable (table_image (NewSerializer one_frame_table FormatFoot)) = Inr one_frame_table"
proof -
  have a: "LogFrame NewSeekTable 1000 2000 = Inr one_frame_table"
    by (simp add: LogFrame_def NewSeekTable_def NumFrames_def SEEKABLE_MAX_FRAMES_def one_frame_table_def)
  have b: "write_chunks (NewSerializer one_frame_table FormatHead) (replicate 4096 0) []
       = Some (table_image (NewSerializer one_frame_table FormatHead))"
    using write_chunks_spec [OF _ NewSerializer_start, of "replicate 4096 0" one_frame_table FormatHead "[]"]
    by (simp add: NewSerializer_def)
  have c: "ParseSeekTable (table_image (NewSerializer one_frame_table FormatHead)) = Inl ErrInvalidMagic"
    by code_simp
  have d: "ParseSeekTable (table_image (NewSerializer one_frame_table FormatFoot)) = Inr one_frame_table"
    by code_simp
  show ?thesis using a b c d by blast
qed

section \<open>Frame lookup\<close>

lemma built_props:
  "built st fs \<Longrightarrow>
   length (entries st) = Suc (length fs) \<and> length fs \<le> 2 ^ 27
   \<and> entries st ! 0 = \<lparr>CompressedOffset = 0, DecompressedOffset = 0\<rparr>"
proof (induction rule: built.induct)
  case built_new
  then show ?case by (simp add: NewSeekTable_def)
next
  case (built_log st fs c d st')
  then have len: "length (entries st) = Suc (length fs)" and le: "length fs \<le> 2 ^ 27"
    and z: "entries st ! 0 = \<lparr>CompressedOffset = 0, DecompressedOffset = 0\<rparr>" by simp_all
  have nf: "NumFrames st = word_of_nat (length fs)" using len by (simp add: NumFrames_def)
  have u: "unat (word_of_nat (length fs) :: u32) = length fs"
    using le by (intro unat_of_nat_32) simp
  from built_log.hyps(2) have ok: "\<not> NumFrames st \<ge> SEEKABLE_MAX_FRAMES"
    and st': "entries st' = entries st @
          [\<lparr>CompressedOffset = CompressedOffset (last (entries st)) + ucast c,
            DecompressedOffset = DecompressedOffset (last (entries st)) + ucast d\<rparr>]"
    by (auto simp add: LogFrame_def Let_def split: if_splits)
  from ok have "length fs < 2 ^ 27"
    using nf u by (simp add: SEEKABLE_MAX_FRAMES_def word_le_nat_alt)
  then show ?case using st' len z by (simp add: nth_append)
qed

lemma cum_mono:
  assumes inc: "\<And>i. i < N \<Longrightarrow> cum d i < cum d (Suc i)"
  shows "i \<le> j \<Longrightarrow> j \<le> N \<Longrightarrow> cum d i \<le> cum d j"
proof (induction j)
  case 0
  then show ?case by simp
next
  case (Suc j)
  show ?case
  proof (cases "i = Suc j")
    case True
    then show ?thesis by simp
  next
    case False
    then have "i \<le> j" using Suc.prems by simp
    then have "cum d i \<le> cum d j" using Suc by simp
    also have "cum d j < cum d (Suc j)" using inc [of j] Suc.prems by simp
    finally show ?thesis by simp
  qed
qed

lemma cum_less_imp:
  assumes inc: "\<And>i. i < N \<Longrightarrow> cum d i < cum d (Suc i)"
    and "cum d a < cum d b" and "a \<le> N"
  shows "a < b"
proof (rule ccontr)
  assume "\<not> a < b"
  then have "b \<le> a" by simp
  from cum_mono [where N = N, OF inc this assms(3)] assms(2) show False by simp
qed

lemma mustFrameEndDecomp_valid:
  assumes len: "length (entries (dec_seekTable d)) = Suc N" and N: "N \<le> 2 ^ 27"
    and m: "unat m < N"
  shows "mustFrameEndDecomp d m = cum d (Suc (unat m))"
proof -
  have "NumFrames (dec_seekTable d) = word_of_nat N" using len by (simp add: NumFrames_def)
  moreover have "unat (word_of_nat N :: u32) = N" using N by (intro unat_of_nat_32) simp
  ultimately have "\<not> m \<ge> NumFrames (dec_seekTable d)" using m by (simp add: word_le_nat_alt)
  then show ?thesis by (simp add: mustFrameEndDecomp_def FrameEndDecomp_def cum_def)
qed

lemma findFrame_loop_spec:
  assumes len: "length (entries (dec_seekTable d)) = Suc N" and N: "N \<le> 2 ^ 27"
    and inc: "\<And>i. i < N \<Longrightarrow> cum d i < cum d (Suc i)"
    and i: "i < N" "cum d i \<le> off" "off < cum d (Suc i)"
  shows "unat low < unat high \<Longrightarrow> unat high \<le> N \<Longrightarrow> unat low \<le> i \<Longrightarrow> i \<le> unat high \<Longrightarrow>
    \<exists>l h. findFrame_loop d off low high = Some (l, h) \<and> unat h = Suc (unat l)
       \<and> unat l \<le> i \<and> i \<le> unat h \<and> unat h \<le> N"
proof (induction "unat high - unat low" arbitrary: low high rule: less_induct)
  case less
  note lh = less.prems(1) and hN = less.prems(2) and li = less.prems(3) and ih = less.prems(4)
  have h32: "unat high < 2 ^ 31" using hN N by simp
  have l1: "unat (low + 1) = Suc (unat low)"
  proof -
    have "unat low + unat (1 :: u32) < 2 ^ 32" using lh h32 by simp
    then have "unat (low + 1) = unat low + unat (1 :: u32)" using unat_add_lem [of low 1] by simp
    then show ?thesis by simp
  qed
  have sum: "unat (low + high) = unat low + unat high"
  proof -
    have "unat low + unat high < 2 ^ 32" using lh h32 by simp
    then show ?thesis using unat_add_lem [of low high] by simp
  qed
  define mid where "mid = (low + high) div 2"
  have um: "unat mid = (unat low + unat high) div 2"
    by (simp add: mid_def unat_div sum)
  note step = findFrame_loop.simps [of d off low high]
  show ?case
  proof (cases "low + 1 < high")
    case False
    then have "unat high = Suc (unat low)" using lh l1 by (simp add: word_less_nat_alt)
    moreover have "findFrame_loop d off low high = Some (low, high)" using step False by simp
    ultimately show ?thesis using li ih hN by simp
  next
    case True
    then have gap: "Suc (unat low) < unat high" using l1 by (simp add: word_less_nat_alt)
    have ml: "unat low < unat mid" and mh: "unat mid < unat high" using gap um by simp_all
    have mN: "unat mid < N" using mh hN by simp
    have me: "mustFrameEndDecomp d mid = cum d (Suc (unat mid))"
      by (rule mustFrameEndDecomp_valid [OF len N mN])
    show ?thesis
    proof (cases "off < cum d (Suc (unat mid))")
      case True
      have rec: "findFrame_loop d off low high = findFrame_loop d off low mid"
        using step \<open>low + 1 < high\<close> True me by (simp add: Let_def mid_def)
      have im: "i \<le> unat mid"
      proof -
        have "cum d i < cum d (Suc (unat mid))" using i(2) True by simp
        from cum_less_imp [where N = N, OF inc this] i(1) show ?thesis by simp
      qed
      have "unat mid - unat low < unat high - unat low" using ml mh by simp
      from less.hyps [OF this ml _ li im] mN rec show ?thesis by simp
    next
      case False
      have rec: "findFrame_loop d off low high = findFrame_loop d off mid high"
        using step \<open>low + 1 < high\<close> False me by (simp add: Let_def mid_def)
      have mi: "unat mid \<le> i"
      proof -
        have "cum d (Suc (unat mid)) < cum d (Suc i)" using i(3) False by simp
        from cum_less_imp [where N = N, OF inc this] mN show ?thesis by simp
      qed
      have "unat high - unat mid < unat high - unat low" using ml mh by simp
      from less.hyps [OF this mh hN mi ih] rec show ?thesis by simp
    qed
  qed
qed

lemma findFrameAtOffset_inside:
  assumes len: "length (entries (dec_seekTable d)) = Suc N" and N: "N \<le> 2 ^ 27"
    and zero: "cum d 0 = 0"
    and inc: "\<And>i. i < N \<Longrightarrow> cum d i < cum d (Suc i)"
    and i: "i < N" "cum d i \<le> off" "off < cum d (Suc i)"
  shows "findFrameAtOffset d off = Some (word_of_nat i)"
proof (cases "off = 0")
  case True
  have "i = 0"
  proof (rule ccontr)
    assume "i \<noteq> 0"
    then have "cum d 0 < cum d (Suc 0)" "Suc 0 \<le> i" using inc [of 0] i(1) by simp_all
    moreover have "cum d (Suc 0) \<le> cum d i"
      using cum_mono [where N = N, OF inc \<open>Suc 0 \<le> i\<close>] i(1) by simp
    ultimately show False using i(2) True zero by simp
  qed
  then show ?thesis using True by (simp add: findFrameAtOffset_def)
next
  case False
  have nf: "NumFrames (dec_seekTable d) = word_of_nat N" using len by (simp add: NumFrames_def)
  have uN: "unat (word_of_nat N :: u32) = N" using N by (intro unat_of_nat_32) simp
  have N1: "unat (word_of_nat N - 1 :: u32) = N - 1"
  proof -
    have "(word_of_nat N :: u32) \<noteq> 0" using uN i(1) by (metis not_less_zero unat_0)
    then show ?thesis using uN by (simp add: unat_minus_one)
  qed
  have last: "mustFrameEndDecomp d (word_of_nat N - 1) = cum d N"
    using mustFrameEndDecomp_valid [OF len N, of "word_of_nat N - 1"] N1 i(1) by simp
  have "cum d (Suc i) \<le> cum d N" using cum_mono [where N = N, OF inc, of "Suc i" N] i(1) by simp
  then have notend: "\<not> cum d N \<le> off" using i(3) by simp
  from findFrame_loop_spec [OF len N inc i, of 0 "word_of_nat N"] uN i(1)
  obtain l h where lp: "findFrame_loop d off 0 (word_of_nat N) = Some (l, h)"
    and hl: "unat h = Suc (unat l)" and li: "unat l \<le> i" and ih: "i \<le> unat h" and hN: "unat h \<le> N"
    by auto
  have lN: "unat l < N" using hl hN by simp
  have me: "mustFrameEndDecomp d l = cum d (Suc (unat l))"
    by (rule mustFrameEndDecomp_valid [OF len N lN])
  have res: "findFrameAtOffset d off = (if off < cum d (Suc (unat l)) then Some l else Some h)"
    using False notend lp by (simp add: findFrameAtOffset_def Let_def nf last me)
  show ?thesis
  proof (cases "off < cum d (Suc (unat l))")
    case True
    have "cum d i < cum d (Suc (unat l))" using i(2) True by simp
    from cum_less_imp [where N = N, OF inc this] i(1) have "i \<le> unat l" by simp
    then have "unat l = i" using li by simp
    then have "l = word_of_nat i" by (metis of_nat_unat ucast_id)
    then show ?thesis using res True by simp
  next
    case False
    have "cum d (Suc (unat l)) < cum d (Suc i)" using i(3) False by simp
    from cum_less_imp [where N = N, OF inc this] lN have "unat l < i" by simp
    then have "unat h = i" using ih hl by simp
    then have "h = word_of_nat i" by (metis of_nat_unat ucast_id)
    then show ?thesis using res False by simp
  qed
qed

lemma findFrameAtOffset_past_end:
  assumes len: "length (entries (dec_seekTable d)) = Suc N" and N: "N \<le> 2 ^ 27" and pos: "0 < N"
    and zero: "cum d 0 = 0"
    and inc: "\<And>i. i < N \<Longrightarrow> cum d i < cum d (Suc i)"
    and v: "cum d N \<le> v"
  shows "findFrameAtOffset d v = Some (word_of_nat (N - 1))"
proof -
  have nf: "NumFrames (dec_seekTable d) = word_of_nat N" using len by (simp add: NumFrames_def)
  have uN: "unat (word_of_nat N :: u32) = N" using N by (intro unat_of_nat_32) simp
  have nz: "(word_of_nat N :: u32) \<noteq> 0" using uN pos by (metis not_less_zero unat_0)
  have N1: "unat (word_of_nat N - 1 :: u32) = N - 1"
    using nz uN by (simp add: unat_minus_one)
  have w1: "(word_of_nat N - 1 :: u32) = word_of_nat (N - 1)"
    using N1 by (metis of_nat_unat ucast_id)
  have last: "mustFrameEndDecomp d (word_of_nat N - 1) = cum d N"
    using mustFrameEndDecomp_valid [OF len N, of "word_of_nat N - 1"] N1 pos by simp
  have "cum d 0 < cum d N"
  proof -
    have "cum d 0 < cum d (Suc 0)" using inc [of 0] pos by simp
    also have "cum d (Suc 0) \<le> cum d N" using cum_mono [where N = N, OF inc, of "Suc 0" N] pos by simp
    finally show ?thesis .
  qed
  then have "v \<noteq> 0" using v zero by auto
  moreover have "mustFrameEndDecomp d (word_of_nat (N - 1)) = cum d N" using last w1 by simp
  ultimately show ?thesis using v by (simp add: findFrameAtOffset_def Let_def nf w1)
qed

lemma demo_table_built: "built demo_table [(5, 10), (7, 10), (4, 10)]"
proof -
  define t1 where "t1 = \<lparr>entries = [\<lparr>CompressedOffset = 0, DecompressedOffset = 0\<rparr>,
      \<lparr>CompressedOffset = 5, DecompressedOffset = (10 :: u64)\<rparr>]\<rparr>"
  define t2 where "t2 = \<lparr>entries = [\<lparr>CompressedOffset = 0, DecompressedOffset = 0\<rparr>,
      \<lparr>CompressedOffset = 5, DecompressedOffset = 10\<rparr>,
      \<lparr>CompressedOffset = 12, DecompressedOffset = (20 :: u64)\<rparr>]\<rparr>"
  have l1: "LogFrame NewSeekTable 5 10 = Inr t1"
    by (simp add: LogFrame_def NewSeekTable_def NumFrames_def SEEKABLE_MAX_FRAMES_def t1_def)
  have l2: "LogFrame t1 7 10 = Inr t2"
    by (simp add: LogFrame_def NumFrames_def SEEKABLE_MAX_FRAMES_def t1_def t2_def word_le_nat_alt)
  have l3: "LogFrame t2 4 10 = Inr demo_table"
    by (simp add: LogFrame_def NumFrames_def SEEKABLE_MAX_FRAMES_def t2_def demo_table_def word_le_nat_alt)
  from built_log [OF built_log [OF built_log [OF built_new l1] l2] l3] show ?thesis by simp
qed

text \<open>
  C4: over a table built by \<open>LogFrame\<close> with \<open>N \<ge> 1\<close> frames and strictly increasing
  cumulative decompressed offsets, \<open>findFrameAtOffset\<close> returns, and: at
  \<open>cumulative_decompressed[i]\<close> it gives \<open>i\<close> for every \<open>i < N\<close>; at or past
  \<open>cumulative_decompressed[N]\<close> it gives \<open>N - 1\<close>; and at any offset inside frame
  \<open>i\<close> it gives \<open>i\<close>, the only frame that contains the offset.
\<close>

theorem findFrameAtOffset_correct:
  assumes b: "built (dec_seekTable d) fs" and ne: "fs \<noteq> []"
    and inc: "\<forall>i < length fs. cum d i < cum d (Suc i)"
  shows "NumFrames (dec_seekTable d) = word_of_nat (length fs)
    \<and> (\<forall>i < length fs. findFrameAtOffset d (cum d i) = Some (word_of_nat i))
    \<and> (\<forall>v. cum d (length fs) \<le> v \<longrightarrow> findFrameAtOffset d v = Some (word_of_nat (length fs - 1)))
    \<and> (\<forall>off i. i < length fs \<and> cum d i \<le> off \<and> off < cum d (Suc i)
          \<longrightarrow> findFrameAtOffset d off = Some (word_of_nat i)
              \<and> (\<forall>j < length fs. cum d j \<le> off \<and> off < cum d (Suc j) \<longrightarrow> j = i))"
proof -
  let ?N = "length fs"
  from built_props [OF b] have len: "length (entries (dec_seekTable d)) = Suc ?N"
    and N: "?N \<le> 2 ^ 27" and zero: "cum d 0 = 0" by (simp_all add: cum_def)
  have pos: "0 < ?N" using ne by simp
  have inc': "\<And>i. i < ?N \<Longrightarrow> cum d i < cum d (Suc i)" using inc by simp
  have inside: "findFrameAtOffset d off = Some (word_of_nat i)"
    if "i < ?N" "cum d i \<le> off" "off < cum d (Suc i)" for off i
    using findFrameAtOffset_inside [OF len N zero inc' that] .
  have uniq: "j = i"
    if "i < ?N" "cum d i \<le> off" "off < cum d (Suc i)" "j < ?N" "cum d j \<le> off" "off < cum d (Suc j)"
    for off i j
  proof -
    have "cum d i < cum d (Suc j)" using that by simp
    from cum_less_imp [where N = ?N, OF inc' this] that(1) have "i \<le> j" by simp
    moreover have "cum d j < cum d (Suc i)" using that by simp
    from cum_less_imp [where N = ?N, OF inc' this] that(4) have "j \<le> i" by simp
    ultimately show ?thesis by simp
  qed
  have a: "NumFrames (dec_seekTable d) = word_of_nat ?N" using len by (simp add: NumFrames_def)
  have c1: "\<forall>i < ?N. findFrameAtOffset d (cum d i) = Some (word_of_nat i)"
    using inside inc' by simp
  have c2: "\<forall>v. cum d ?N \<le> v \<longrightarrow> findFrameAtOffset d v = Some (word_of_nat (?N - 1))"
    using findFrameAtOffset_past_end [OF len N pos zero inc'] by simp
  show ?thesis using a c1 c2 inside uniq by blast
qed

theorem findFrameAtOffset_correct_witness:
  "findFrameAtOffset (demo_decoder 0) 0 = Some 0
   \<and> findFrameAtOffset (demo_decoder 0) 10 = Some 1
   \<and> findFrameAtOffset (demo_decoder 0) 15 = Some 1
   \<and> findFrameAtOffset (demo_decoder 0) 20 = Some 2
   \<and> findFrameAtOffset (demo_decoder 0) 30 = Some 2
   \<and> findFrameAtOffset (demo_decoder 0) 47 = Some 2"
proof -
  let ?d = "demo_decoder 0" and ?fs = "[(5, 10), (7, 10), (4, 10)] :: (u32 \<times> u32) list"
  have t: "dec_seekTable ?d = demo_table" by (simp add: demo_decoder_def)
  have b: "built (dec_seekTable ?d) ?fs" using demo_table_built t by simp
  have ne: "?fs \<noteq> []" by simp
  have c: "cum ?d 0 = 0" "cum ?d (Suc 0) = 10" "cum ?d 2 = 20" "cum ?d 3 = 30"
    "cum ?d (Suc (Suc 0)) = 20" "cum ?d (Suc (Suc (Suc 0))) = 30"
    by (simp_all add: cum_def t demo_table_def)
  have inc: "\<forall>i < length ?fs. cum ?d i < cum ?d (Suc i)"
  proof (intro allI impI)
    fix i assume "i < length ?fs"
    then have "i = 0 \<or> i = Suc 0 \<or> i = Suc (Suc 0)" by auto
    moreover have "cum ?d 0 < cum ?d (Suc 0)" "cum ?d (Suc 0) < cum ?d (Suc (Suc 0))"
      "cum ?d (Suc (Suc 0)) < cum ?d (Suc (Suc (Suc 0)))"
      by (simp_all add: cum_def t demo_table_def)
    ultimately show "cum ?d i < cum ?d (Suc i)" by blast
  qed
  note res = findFrameAtOffset_correct [OF b ne inc]
  have starts: "\<forall>i < length ?fs. findFrameAtOffset ?d (cum ?d i) = Some (word_of_nat i)"
    and past: "\<forall>v. cum ?d (length ?fs) \<le> v \<longrightarrow> findFrameAtOffset ?d v = Some (word_of_nat (length ?fs - 1))"
    and inside: "\<forall>off i. i < length ?fs \<and> cum ?d i \<le> off \<and> off < cum ?d (Suc i)
          \<longrightarrow> findFrameAtOffset ?d off = Some (word_of_nat i)
              \<and> (\<forall>j < length ?fs. cum ?d j \<le> off \<and> off < cum ?d (Suc j) \<longrightarrow> j = i)"
    using res by blast+
  have r0: "findFrameAtOffset ?d 0 = Some 0" using starts [rule_format, of 0] c by simp
  have r10: "findFrameAtOffset ?d 10 = Some 1" using starts [rule_format, of 1] c by simp
  have r20: "findFrameAtOffset ?d 20 = Some 2" using starts [rule_format, of 2] c by simp
  have r15: "findFrameAtOffset ?d 15 = Some 1"
    using inside [rule_format, of 1 15] c by simp
  have r30: "findFrameAtOffset ?d 30 = Some 2" using past [rule_format, of 30] c by simp
  have r47: "findFrameAtOffset ?d 47 = Some 2" using past [rule_format, of 47] c by simp
  show ?thesis using r0 r10 r15 r20 r30 r47 by blast
qed

end
